theory Spec2Isabelle
  imports Main "HOL-Library.Word" "HOL-Library.Monad_Syntax" "HOL-Library.Sublist"
    "HOL-Library.Multiset" "HOL-Library.Extended_Nat"
begin

section \<open>Data model\<close>

text \<open>
  A JavaScript string is a sequence of UTF-16 code units. None of the regular
  expressions of the tag parser carries the \<open>u\<close> flag, so matching, \<open>slice\<close>,
  \<open>length\<close> and \<open>trim\<close> all work on code units. An ASCII literal of the source
  is written \<open>str ''...''\<close>.
\<close>

type_synonym jsstring = "16 word list"

definition str :: "string \<Rightarrow> jsstring" where
  "str s = map of_char s"

text \<open>
  A value of a type \<open>T | null | undefined\<close> (also an optional property \<open>f?: T\<close>).
\<close>

datatype 'a nullable = Undefined | Null | Val 'a

text \<open>The operator \<open>a ?? b\<close>: \<open>b\<close> when \<open>a\<close> is null or undefined.\<close>

fun nullish :: "'a nullable \<Rightarrow> 'a nullable \<Rightarrow> 'a nullable" where
  "nullish (Val a) b = Val a"
| "nullish Null b = b"
| "nullish Undefined b = b"

text \<open>
  A JavaScript number that holds an index parsed from the markup: a natural number
  (one that a double represents) or \<open>Infinity\<close>. The difference of two of them, as
  the comparator of \<open>sort\<close> takes it, is negative, zero (also \<open>NaN\<close>, for twice
  \<open>Infinity\<close>, which \<open>sort\<close> reads as zero) or positive as the order of \<open>enat\<close> has it.
\<close>

type_synonym number = enat

text \<open>
  The interfaces of \<open>app/types.ts\<close>. Positions in arrays and the counters of the
  metrics are natural numbers.
\<close>

datatype segType = Text | Add | Del

record diffSegment =
  type :: segType
  content :: jsstring

record diffRecord =
  editIndex :: number
  sectionIndex :: nat
  oldHeading :: "jsstring nullable"
  newHeading :: "jsstring nullable"
  segments :: "diffSegment list"

record processedSentencePair =
  oldHeading :: "jsstring nullable"
  newHeading :: "jsstring nullable"
  processedSentencePair :: "jsstring nullable"

record stage1Item =
  index :: number
  fact :: jsstring
  insight :: jsstring

record stage2Cluster =
  index :: number
  theme :: jsstring
  summary :: jsstring
  investorInsight :: jsstring
  relatedEdits :: "number list"

record sectionContentRecord =
  index :: nat
  oldHeading :: "jsstring nullable"
  newHeading :: "jsstring nullable"
  oldContent :: "jsstring nullable"
  newContent :: "jsstring nullable"

record diffMetrics =
  adds :: nat
  deletes :: nat
  edits :: nat

section \<open>Metrics Aggregator\<close>

text \<open>
  \<open>computeDiffMetrics\<close>: a \<open>reduce\<close> over the records from the accumulator
  \<open>{ adds: 0, deletes: 0, edits: 0 }\<close>; the body walks the record's segments and
  then counts the record itself.
\<close>

definition countSegment :: "diffSegment \<Rightarrow> diffMetrics \<Rightarrow> diffMetrics" where
  "countSegment segment acc =
     (if type segment = Add then acc\<lparr>adds := adds acc + 1\<rparr>
      else if type segment = Del then acc\<lparr>deletes := deletes acc + 1\<rparr>
      else acc)"

definition countRecord :: "diffRecord \<Rightarrow> diffMetrics \<Rightarrow> diffMetrics" where
  "countRecord record acc =
     (let acc' = fold countSegment (segments record) acc
      in acc'\<lparr>edits := edits acc' + 1\<rparr>)"

definition computeDiffMetrics :: "diffRecord list \<Rightarrow> diffMetrics" where
  "computeDiffMetrics records =
     fold countRecord records \<lparr>adds = 0, deletes = 0, edits = 0\<rparr>"

section \<open>Heading Filter\<close>

text \<open>\<open>heading.startsWith(p)\<close>.\<close>

definition startsWith :: "jsstring \<Rightarrow> jsstring \<Rightarrow> bool" where
  "startsWith s p = (take (length p) s = p)"

text \<open>
  \<open>isChapterOneHeading\<close>: \<open>typeof heading === "string" && heading.startsWith("1")\<close>.
\<close>

fun isChapterOneHeading :: "jsstring nullable \<Rightarrow> bool" where
  "isChapterOneHeading (Val heading) = startsWith heading (str ''1'')"
| "isChapterOneHeading Null = False"
| "isChapterOneHeading Undefined = False"

text \<open>
  \<open>sectionMap\<close>: a \<open>Map\<close> filled by \<open>sections.forEach\<close>, a later section
  replacing an earlier one of the same index.
\<close>

definition sectionMap :: "sectionContentRecord list \<Rightarrow> (nat \<rightharpoonup> sectionContentRecord)" where
  "sectionMap sections = fold (\<lambda>section m. m(index section \<mapsto> section)) sections Map.empty"

text \<open>\<open>section?.oldHeading\<close> and \<open>section?.newHeading\<close> on the result of \<open>Map.get\<close>.\<close>

fun sectionOldHeading :: "sectionContentRecord option \<Rightarrow> jsstring nullable" where
  "sectionOldHeading None = Undefined"
| "sectionOldHeading (Some section) = sectionContentRecord.oldHeading section"

fun sectionNewHeading :: "sectionContentRecord option \<Rightarrow> jsstring nullable" where
  "sectionNewHeading None = Undefined"
| "sectionNewHeading (Some section) = sectionContentRecord.newHeading section"

definition visibleSections :: "sectionContentRecord list \<Rightarrow> sectionContentRecord list" where
  "visibleSections sections =
     filter (\<lambda>section.
        isChapterOneHeading (sectionContentRecord.oldHeading section) \<and>
        isChapterOneHeading (sectionContentRecord.newHeading section)) sections"

text \<open>The predicate handed to \<open>diffRecords?.filter\<close>.\<close>

definition recordInScope :: "(nat \<rightharpoonup> sectionContentRecord) \<Rightarrow> diffRecord \<Rightarrow> bool" where
  "recordInScope smap record =
     (let section = smap (sectionIndex record);
          oldH = nullish (diffRecord.oldHeading record) (sectionOldHeading section);
          newH = nullish (diffRecord.newHeading record) (sectionNewHeading section)
      in isChapterOneHeading oldH \<and> isChapterOneHeading newH)"

fun filteredDiffRecords ::
  "sectionContentRecord list \<Rightarrow> diffRecord list nullable \<Rightarrow> diffRecord list" where
  "filteredDiffRecords sections (Val diffRecords) =
     filter (recordInScope (sectionMap sections)) diffRecords"
| "filteredDiffRecords sections Null = []"
| "filteredDiffRecords sections Undefined = []"

section \<open>Regular expressions\<close>

text \<open>
  The character classes: \<open>\s\<close> (white space and line terminators of ECMAScript,
  the same set \<open>trim\<close> removes) and \<open>\d\<close>.
\<close>

definition isSpace :: "16 word \<Rightarrow> bool" where
  "isSpace c =
     (c \<in> {0x09, 0x0A, 0x0B, 0x0C, 0x0D, 0x20, 0xA0, 0x1680, 0x2028, 0x2029, 0x202F,
            0x205F, 0x3000, 0xFEFF}
      \<or> (0x2000 \<le> c \<and> c \<le> 0x200A))"

definition isDigit :: "16 word \<Rightarrow> bool" where
  "isDigit c = (0x30 \<le> c \<and> c \<le> 0x39)"

text \<open>
  A pattern is matched at the start of a suffix of the subject and gives the rest of
  the subject behind the match. \<open>lit p\<close> is the literal \<open>p\<close> (also a
  backreference to a group that captured \<open>p\<close>).
\<close>

fun lit :: "jsstring \<Rightarrow> jsstring \<Rightarrow> jsstring option" where
  "lit [] s = Some s"
| "lit (p # ps) [] = None"
| "lit (p # ps) (c # cs) = (if p = c then lit ps cs else None)"

text \<open>
  \<open>\s+\<close> where the pattern goes on with a character that is not white space: the
  greedy run can give nothing back, so it is the whole run, and there must be one.
\<close>

definition spaces1 :: "jsstring \<Rightarrow> jsstring option" where
  "spaces1 s = (if takeWhile isSpace s = [] then None else Some (dropWhile isSpace s))"

text \<open>
  \<open>([\s\S]*?)\<close> followed by the pattern \<open>close\<close>: the lazy group grows one code
  unit at a time until \<open>close\<close> matches behind it. The result is the captured
  text and the rest of the subject behind \<open>close\<close>.
\<close>

fun lazyBody :: "(jsstring \<Rightarrow> jsstring option) \<Rightarrow> jsstring \<Rightarrow> (jsstring \<times> jsstring) option" where
  "lazyBody close [] = (case close [] of Some r \<Rightarrow> Some ([], r) | None \<Rightarrow> None)"
| "lazyBody close (c # cs) =
     (case close (c # cs) of
        Some r \<Rightarrow> Some ([], r)
      | None \<Rightarrow> (case lazyBody close cs of Some (b, r) \<Rightarrow> Some (c # b, r) | None \<Rightarrow> None))"

text \<open>
  A regular expression with two capture groups, matched at the start of a suffix:
  the two captures and the rest of the subject behind the match.
\<close>

type_synonym regex = "jsstring \<Rightarrow> (jsstring \<times> jsstring \<times> jsstring) option"

text \<open>
  \<open>editBlockRegex = /<edit\s+(\d+)\s+Desc>\s*([\s\S]*?)<\/edit\s+\1\s+Desc>/g\<close> and
  \<open>clusterBlockRegex\<close>, the same with \<open>Cluster\<close> for \<open>edit\<close>. Every greedy
  quantifier is followed by a character outside its class (\<open>\s+\<close> by a digit or
  \<open>D\<close>, \<open>\d+\<close> by white space, \<open>\s*\<close> by the body, whose closing tag starts
  with \<open><\<close>), so backtracking into it finds nothing new and each takes its whole run.
\<close>

definition closeBlock :: "jsstring \<Rightarrow> jsstring \<Rightarrow> jsstring \<Rightarrow> jsstring option" where
  "closeBlock kind n s = do {
     s1 \<leftarrow> lit (str ''</'' @ kind) s;
     s2 \<leftarrow> spaces1 s1;
     s3 \<leftarrow> lit n s2;
     s4 \<leftarrow> spaces1 s3;
     lit (str ''Desc>'') s4
   }"

definition blockRegex :: "jsstring \<Rightarrow> regex" where
  "blockRegex kind s = do {
     s1 \<leftarrow> lit (str ''<'' @ kind) s;
     s2 \<leftarrow> spaces1 s1;
     s3 \<leftarrow> (if takeWhile isDigit s2 = [] then None else Some (dropWhile isDigit s2));
     s4 \<leftarrow> spaces1 s3;
     s5 \<leftarrow> lit (str ''Desc>'') s4;
     (body, rest) \<leftarrow> lazyBody (closeBlock kind (takeWhile isDigit s2)) (dropWhile isSpace s5);
     Some (takeWhile isDigit s2, body, rest)
   }"

definition editBlockRegex :: regex where
  "editBlockRegex = blockRegex (str ''edit'')"

definition clusterBlockRegex :: regex where
  "clusterBlockRegex = blockRegex (str ''Cluster'')"

text \<open>
  \<open>addDelRegex = /<(add|del)>([\s\S]*?)<\/\1>/g\<close>. At one position at most one of
  the alternatives matches.
\<close>

definition addDelRegex :: regex where
  "addDelRegex s = do {
     s1 \<leftarrow> lit (str ''<'') s;
     (t, s2) \<leftarrow> (case lit (str ''add'') s1 of
                   Some r \<Rightarrow> Some (str ''add'', r)
                 | None \<Rightarrow> (case lit (str ''del'') s1 of
                              Some r \<Rightarrow> Some (str ''del'', r)
                            | None \<Rightarrow> None));
     s3 \<leftarrow> lit (str ''>'') s2;
     (body, rest) \<leftarrow> lazyBody (lit (str ''</'' @ t @ str ''>'')) s3;
     Some (t, body, rest)
   }"

text \<open>
  \<open>editWrapperRegex = /<edit\s+(\d+)[^>]*>([\s\S]*?)<\/edit\s+\1\s*>/g\<close>. Here the
  greedy \<open>(\d+)\<close> is followed by \<open>[^>]*\<close>, which takes digits too: when no closing
  tag repeats the whole run of digits, the matcher backtracks and tries the run
  without its last digit, then without its last two, down to one digit.
  \<open>wrapperTry k s\<close> tries the captures of \<open>k\<close>, \<open>k - 1\<close>, ..., \<open>1\<close> digits on the
  subject \<open>s\<close> that starts with the digits. \<open>[^>]*>\<close> runs to the first \<open>>\<close>.
\<close>

definition closeWrapper :: "jsstring \<Rightarrow> jsstring \<Rightarrow> jsstring option" where
  "closeWrapper n s = do {
     s1 \<leftarrow> lit (str ''</edit'') s;
     s2 \<leftarrow> spaces1 s1;
     s3 \<leftarrow> lit n s2;
     lit (str ''>'') (dropWhile isSpace s3)
   }"

fun wrapperTry :: "nat \<Rightarrow> jsstring \<Rightarrow> (jsstring \<times> jsstring \<times> jsstring) option" where
  "wrapperTry 0 s = None"
| "wrapperTry (Suc k) s =
     (case do {
             s1 \<leftarrow> lit (str ''>'') (dropWhile (\<lambda>c. c \<noteq> 0x3E) (drop (Suc k) s));
             lazyBody (closeWrapper (take (Suc k) s)) s1
           } of
        Some (body, rest) \<Rightarrow> Some (take (Suc k) s, body, rest)
      | None \<Rightarrow> wrapperTry k s)"

definition editWrapperRegex :: regex where
  "editWrapperRegex s = do {
     s1 \<leftarrow> lit (str ''<edit'') s;
     s2 \<leftarrow> spaces1 s1;
     wrapperTry (length (takeWhile isDigit s2)) s2
   }"

text \<open>
  \<open>RegExp.prototype.exec\<close> of a regular expression with the \<open>g\<close> flag. The result
  array has \<open>index\<close>, the match \<open>[0]\<close> and the groups \<open>[1]\<close> and \<open>[2]\<close>. The search
  starts at \<open>lastIndex\<close> and moves right one code unit at a time; a match sets
  \<open>lastIndex\<close> to its end, a failure (also a \<open>lastIndex\<close> beyond the subject) sets it
  to 0 and returns null. \<open>exec re text lastIndex\<close> gives the result and the new
  \<open>lastIndex\<close>.
\<close>

record regExpMatch =
  matchIndex :: nat
  full :: jsstring
  group1 :: jsstring
  group2 :: jsstring

fun search :: "regex \<Rightarrow> jsstring \<Rightarrow> nat \<Rightarrow> regExpMatch option" where
  "search re s i =
     (case re s of
        Some (g1, g2, rest) \<Rightarrow>
          Some \<lparr>matchIndex = i, full = take (length s - length rest) s, group1 = g1, group2 = g2\<rparr>
      | None \<Rightarrow> (case s of [] \<Rightarrow> None | c # cs \<Rightarrow> search re cs (Suc i)))"

definition exec :: "regex \<Rightarrow> jsstring \<Rightarrow> nat \<Rightarrow> regExpMatch option \<times> nat" where
  "exec re text lastIndex =
     (if lastIndex > length text then (None, 0)
      else (case search re (drop lastIndex text) lastIndex of
              None \<Rightarrow> (None, 0)
            | Some m \<Rightarrow> (Some m, matchIndex m + length (full m))))"

text \<open>
  The four regular expressions are module-level objects: their \<open>lastIndex\<close> lives
  on between the calls of the extractors. Every extractor takes the state of the
  module and returns the new one.
\<close>

record regexState =
  editBlockLast :: nat
  clusterBlockLast :: nat
  addDelLast :: nat
  editWrapperLast :: nat

definition initialState :: regexState where
  "initialState = \<lparr>editBlockLast = 0, clusterBlockLast = 0, addDelLast = 0, editWrapperLast = 0\<rparr>"

section \<open>Facts about the regular expressions\<close>

lemma lit_append: "lit p s = Some r \<Longrightarrow> s = p @ r"
  by (induction p s rule: lit.induct) (auto split: if_splits)

lemma lit_iff: "lit p s = Some r \<longleftrightarrow> s = p @ r"
proof
  show "s = p @ r \<Longrightarrow> lit p s = Some r"
    by (induction p arbitrary: s) auto
qed (rule lit_append)

lemma lit_suffix: "lit p s = Some r \<Longrightarrow> suffix r s"
  by (auto dest: lit_append simp: suffix_def)

lemma lit_strict: "lit p s = Some r \<Longrightarrow> p \<noteq> [] \<Longrightarrow> strict_suffix r s"
  by (auto dest: lit_append simp: strict_suffix_def suffix_def)

lemma suffix_dropWhile: "suffix (dropWhile P s) s"
  by (metis suffix_def takeWhile_dropWhile_id)

lemma spaces1_suffix: "spaces1 s = Some r \<Longrightarrow> suffix r s"
  by (auto simp: spaces1_def suffix_dropWhile split: if_splits)

lemma lazyBody_append:
  "lazyBody close s = Some (b, r) \<Longrightarrow> \<exists>t. s = b @ t \<and> close t = Some r"
proof (induction close s arbitrary: b rule: lazyBody.induct)
  case (1 close)
  then show ?case by (auto split: option.splits)
next
  case (2 close c cs)
  then show ?case by (fastforce split: option.splits)
qed

lemma lazyBody_suffix:
  assumes "lazyBody close s = Some (b, r)" and "\<And>t. close t = Some r \<Longrightarrow> suffix r t"
  shows "suffix r s"
proof -
  from assms(1) obtain t where "s = b @ t" "close t = Some r"
    using lazyBody_append by blast
  with assms(2) show ?thesis by (simp add: suffix_appendI)
qed

lemma closeBlock_suffix:
  assumes "closeBlock kind n t = Some r" shows "suffix r t"
proof -
  from assms obtain s1 s2 s3 s4 where
    "lit (str ''</'' @ kind) t = Some s1" "spaces1 s1 = Some s2" "lit n s2 = Some s3"
    "spaces1 s3 = Some s4" "lit (str ''Desc>'') s4 = Some r"
    unfolding closeBlock_def by (auto split: Option.bind_splits)
  then have "suffix s1 t" "suffix s2 s1" "suffix s3 s2" "suffix s4 s3" "suffix r s4"
    by (simp_all add: lit_suffix spaces1_suffix)
  then show ?thesis by (meson suffix_order.trans)
qed

lemma closeWrapper_suffix:
  assumes "closeWrapper n t = Some r" shows "suffix r t"
proof -
  from assms obtain s1 s2 s3 where
    "lit (str ''</edit'') t = Some s1" "spaces1 s1 = Some s2" "lit n s2 = Some s3"
    "lit (str ''>'') (dropWhile isSpace s3) = Some r"
    unfolding closeWrapper_def by (auto split: Option.bind_splits)
  then have "suffix s1 t" "suffix s2 s1" "suffix s3 s2" "suffix r (dropWhile isSpace s3)"
    by (simp_all add: lit_suffix spaces1_suffix)
  moreover have "suffix (dropWhile isSpace s3) s3" by (rule suffix_dropWhile)
  ultimately show ?thesis by (meson suffix_order.trans)
qed

definition productive :: "regex \<Rightarrow> bool" where
  "productive re = (\<forall>s g1 g2 rest. re s = Some (g1, g2, rest) \<longrightarrow> strict_suffix rest s)"

lemma productiveD: "productive re \<Longrightarrow> re s = Some (g1, g2, rest) \<Longrightarrow> strict_suffix rest s"
  by (simp add: productive_def)

lemma blockRegex_productive: "productive (blockRegex kind)"
  unfolding productive_def
proof (intro allI impI)
  fix s g1 g2 rest
  assume "blockRegex kind s = Some (g1, g2, rest)"
  then obtain s1 s2 s4 s5 where
    a: "lit (str ''<'' @ kind) s = Some s1" and b: "spaces1 s1 = Some s2"
    and d: "spaces1 (dropWhile isDigit s2) = Some s4"
    and e: "lit (str ''Desc>'') s4 = Some s5"
    and f: "lazyBody (closeBlock kind (takeWhile isDigit s2)) (dropWhile isSpace s5) = Some (g2, rest)"
    unfolding blockRegex_def by (auto split: Option.bind_splits if_splits)
  have "suffix rest (dropWhile isSpace s5)"
    using f by (rule lazyBody_suffix) (rule closeBlock_suffix)
  moreover have "suffix (dropWhile isSpace s5) s5" "suffix (dropWhile isDigit s2) s2"
    by (rule suffix_dropWhile)+
  moreover have "suffix s5 s4" "suffix s4 (dropWhile isDigit s2)" "suffix s2 s1"
    using b d e by (simp_all add: lit_suffix spaces1_suffix)
  ultimately have "suffix rest s1" by (meson suffix_order.trans)
  moreover have "strict_suffix s1 s" using a by (rule lit_strict) (simp add: str_def)
  ultimately show "strict_suffix rest s" by (rule suffix_order.strict_trans1)
qed

lemma addDelRegex_Some:
  "addDelRegex s = Some (g1, g2, rest) \<Longrightarrow>
     (g1 = str ''add'' \<or> g1 = str ''del'') \<and>
     (\<exists>s3. s = str ''<'' @ g1 @ str ''>'' @ s3 \<and>
           lazyBody (lit (str ''</'' @ g1 @ str ''>'')) s3 = Some (g2, rest))"
  by (auto simp: addDelRegex_def lit_iff split: Option.bind_splits option.splits)

lemma addDelRegex_productive: "productive addDelRegex"
  unfolding productive_def
proof (intro allI impI)
  fix s g1 g2 rest
  assume "addDelRegex s = Some (g1, g2, rest)"
  then obtain s3 where
    a: "s = str ''<'' @ g1 @ str ''>'' @ s3"
    and d: "lazyBody (lit (str ''</'' @ g1 @ str ''>'')) s3 = Some (g2, rest)"
    using addDelRegex_Some by blast
  have "suffix rest s3" using d by (rule lazyBody_suffix) (rule lit_suffix)
  then obtain p where "s3 = p @ rest" by (auto simp: suffix_def)
  with a have "s = (str ''<'' @ g1 @ str ''>'' @ p) @ rest" by simp
  moreover have "str ''<'' @ g1 @ str ''>'' @ p \<noteq> []" by (simp add: str_def)
  ultimately show "strict_suffix rest s"
    unfolding strict_suffix_def suffix_def by (metis append_self_conv2)
qed

lemma wrapperTry_suffix: "wrapperTry k s = Some (g1, g2, rest) \<Longrightarrow> suffix rest s"
proof (induction k)
  case 0
  then show ?case by simp
next
  case (Suc k)
  show ?case
  proof (cases "wrapperTry (Suc k) s = wrapperTry k s")
    case True
    with Suc show ?thesis by simp
  next
    case False
    with Suc.prems obtain s1 where
      a: "lit (str ''>'') (dropWhile (\<lambda>c. c \<noteq> 0x3E) (drop (Suc k) s)) = Some s1"
      and b: "lazyBody (closeWrapper (take (Suc k) s)) s1 = Some (g2, rest)"
      by (auto split: Option.bind_splits option.splits)
    have "suffix rest s1" using b by (rule lazyBody_suffix) (rule closeWrapper_suffix)
    moreover have "suffix s1 (dropWhile (\<lambda>c. c \<noteq> 0x3E) (drop (Suc k) s))"
      using a by (rule lit_suffix)
    moreover have "suffix (dropWhile (\<lambda>c. c \<noteq> 0x3E) (drop (Suc k) s)) (drop (Suc k) s)"
      by (rule suffix_dropWhile)
    moreover have "suffix (drop (Suc k) s) s" by (rule suffix_drop)
    ultimately show ?thesis by (meson suffix_order.trans)
  qed
qed

lemma editWrapperRegex_productive: "productive editWrapperRegex"
  unfolding productive_def
proof (intro allI impI)
  fix s g1 g2 rest
  assume "editWrapperRegex s = Some (g1, g2, rest)"
  then obtain s1 s2 where
    a: "lit (str ''<edit'') s = Some s1" and b: "spaces1 s1 = Some s2"
    and c: "wrapperTry (length (takeWhile isDigit s2)) s2 = Some (g1, g2, rest)"
    unfolding editWrapperRegex_def by (auto split: Option.bind_splits)
  have "suffix rest s2" using c by (rule wrapperTry_suffix)
  moreover have "suffix s2 s1" using b by (rule spaces1_suffix)
  ultimately have "suffix rest s1" by (meson suffix_order.trans)
  moreover have "strict_suffix s1 s" using a by (rule lit_strict) (simp add: str_def)
  ultimately show "strict_suffix rest s" by (rule suffix_order.strict_trans1)
qed

lemma search_Some:
  assumes "productive re" and "search re s i = Some m"
  shows "\<exists>k rest. k < length s \<and> matchIndex m = i + k
           \<and> re (drop k s) = Some (group1 m, group2 m, rest)
           \<and> drop k s = full m @ rest \<and> full m \<noteq> []
           \<and> (\<forall>j<k. re (drop j s) = None)"
  using assms
proof (induction re s i rule: search.induct)
  case (1 re s i)
  show ?case
  proof (cases "re s")
    case None
    with "1.prems" obtain c cs where s: "s = c # cs" and rec: "search re cs (Suc i) = Some m"
      by (auto split: list.splits)
    from "1.IH"[OF None s "1.prems"(1) rec] obtain k rest where
      k: "k < length cs" "matchIndex m = Suc i + k"
        "re (drop k cs) = Some (group1 m, group2 m, rest)"
        "drop k cs = full m @ rest" "full m \<noteq> []" "\<forall>j<k. re (drop j cs) = None"
      by blast
    have "\<forall>j<Suc k. re (drop j s) = None"
    proof (intro allI impI)
      fix j assume "j < Suc k"
      then show "re (drop j s) = None"
        using None k(6) s by (cases j) auto
    qed
    with k s show ?thesis
      by (intro exI[of _ "Suc k"] exI[of _ rest]) simp
  next
    case (Some t)
    obtain g1 g2 rest where t: "t = (g1, g2, rest)" by (cases t)
    with Some have re: "re s = Some (g1, g2, rest)" by simp
    from productiveD[OF "1.prems"(1) re] obtain p where p: "s = p @ rest" "p \<noteq> []"
      by (auto simp: strict_suffix_def suffix_def)
    from "1.prems" re have m: "m = \<lparr>matchIndex = i, full = take (length s - length rest) s,
        group1 = g1, group2 = g2\<rparr>"
      by simp
    with p have "full m = p" by simp
    with m p re show ?thesis
      by (intro exI[of _ 0] exI[of _ rest]) auto
  qed
qed

lemma exec_None: "exec re text li = (None, li') \<Longrightarrow> li' = 0"
  by (auto simp: exec_def split: if_splits option.splits)

lemma exec_Some:
  assumes "productive re" and "exec re text li = (Some m, li')"
  shows "li \<le> matchIndex m \<and> matchIndex m < li' \<and> li' \<le> length text
         \<and> li' = matchIndex m + length (full m)
         \<and> re (drop (matchIndex m) text) = Some (group1 m, group2 m, drop li' text)
         \<and> drop (matchIndex m) text = full m @ drop li' text
         \<and> (\<forall>j. li \<le> j \<and> j < matchIndex m \<longrightarrow> re (drop j text) = None)"
proof -
  from assms(2) have li: "li \<le> length text"
    and s: "search re (drop li text) li = Some m"
    and li': "li' = matchIndex m + length (full m)"
    by (auto simp: exec_def split: if_splits option.splits)
  from search_Some[OF assms(1) s] obtain k rest where
    k: "k < length (drop li text)" "matchIndex m = li + k"
      "re (drop k (drop li text)) = Some (group1 m, group2 m, rest)"
      "drop k (drop li text) = full m @ rest" "full m \<noteq> []"
      "\<forall>j<k. re (drop j (drop li text)) = None"
    by blast
  have d: "drop (matchIndex m) text = full m @ rest"
    using k(2,4) by (simp add: add.commute)
  then have "length text - matchIndex m = length (full m) + length rest"
    by (metis length_append length_drop)
  then have le: "li' \<le> length text" and lr: "length rest = length text - li'"
    using li' k(1,2) by auto
  have "rest = drop (length (full m)) (drop (matchIndex m) text)"
    using d by simp
  then have rest: "rest = drop li' text" by (simp add: li' add.commute)
  have "\<forall>j. li \<le> j \<and> j < matchIndex m \<longrightarrow> re (drop j text) = None"
  proof (intro allI impI)
    fix j assume j: "li \<le> j \<and> j < matchIndex m"
    then have "j - li < k" using k(2) by arith
    with k(6) have "re (drop (j - li) (drop li text)) = None" by blast
    with j show "re (drop j text) = None" by simp
  qed
  with k d rest le li' show ?thesis
    by (simp add: add.commute)
qed

lemma exec_advances:
  "productive re \<Longrightarrow> exec re text li = (Some m, li') \<Longrightarrow> li < li' \<and> li' \<le> length text"
  using exec_Some by fastforce

section \<open>Field Extractor\<close>

text \<open>\<open>value.trim()\<close>.\<close>

definition trim :: "jsstring \<Rightarrow> jsstring" where
  "trim s = rev (dropWhile isSpace (rev (dropWhile isSpace s)))"

text \<open>\<open>value.replace(/\s+/g, " ")\<close>: every maximal run of white space becomes one space.\<close>

function collapseSpaces :: "jsstring \<Rightarrow> jsstring" where
  "collapseSpaces [] = []"
| "collapseSpaces (c # cs) =
     (if isSpace c then 0x20 # collapseSpaces (dropWhile isSpace cs)
      else c # collapseSpaces cs)"
  by pat_completeness auto
termination
  by (relation "measure length") (auto simp: length_dropWhile_le less_Suc_eq_le)

definition normalizeWhitespace :: "jsstring \<Rightarrow> jsstring" where
  "normalizeWhitespace v = trim (collapseSpaces v)"

text \<open>
  \<open>body.match(/L([\s\S]*?)(?=B|$)/)?.[1] ?? ""\<close>, where \<open>B\<close> is the opening
  bracket U+3010, and \<open>L\<close> is a label between the brackets U+3010 and U+3011, or an
  alternative of such labels. The match is the leftmost place where a label stands;
  the lazy group behind it ends before the next opening bracket or at the end of the
  body.
\<close>

fun matchField :: "jsstring list \<Rightarrow> jsstring \<Rightarrow> jsstring option" where
  "matchField [] s = None"
| "matchField (l # ls) s =
     (case lit ([0x3010] @ l @ [0x3011]) s of
        Some r \<Rightarrow> Some (takeWhile (\<lambda>c. c \<noteq> 0x3010) r)
      | None \<Rightarrow> matchField ls s)"

fun searchField :: "jsstring list \<Rightarrow> jsstring \<Rightarrow> jsstring option" where
  "searchField ls [] = matchField ls []"
| "searchField ls (c # cs) =
     (case matchField ls (c # cs) of
        Some v \<Rightarrow> Some v
      | None \<Rightarrow> searchField ls cs)"

definition field :: "jsstring list \<Rightarrow> jsstring \<Rightarrow> jsstring" where
  "field ls body = (case searchField ls body of Some v \<Rightarrow> v | None \<Rightarrow> [])"

text \<open>
  \<open>Number.parseInt(digits, 10)\<close> on a capture of \<open>\d+\<close>: the decimal value of the
  string of digits, as the double nearest to it. \<open>toNumber\<close> is that rounding of a
  natural number: below \<open>2^53\<close> the number itself; from there on the 53 leading bits,
  rounded to nearest with ties to the even mantissa; \<open>Infinity\<close> when the rounded value
  reaches \<open>2^1024\<close>.
\<close>

function bitLength :: "nat \<Rightarrow> nat" where
  "bitLength n = (if n = 0 then 0 else Suc (bitLength (n div 2)))"
  by pat_completeness auto
termination
  by (relation "measure id") auto

declare bitLength.simps [simp del]

definition toNumber :: "nat \<Rightarrow> number" where
  "toNumber n =
     (if n < 2 ^ 53 then enat n
      else (let e = bitLength n - 53;
                q = n div 2 ^ e;
                r = n mod 2 ^ e;
                m = (if 2 * r > 2 ^ e \<or> (2 * r = 2 ^ e \<and> odd q) then q + 1 else q)
            in if m * 2 ^ e \<ge> 2 ^ 1024 then \<infinity> else enat (m * 2 ^ e)))"

definition decimal :: "jsstring \<Rightarrow> nat" where
  "decimal ds = foldl (\<lambda>n d. 10 * n + (unat d - 48)) 0 ds"

definition parseInt :: "jsstring \<Rightarrow> number" where
  "parseInt ds = toNumber (decimal ds)"

section \<open>Stage 1 and stage 2 narratives\<close>

definition stage1ItemOf :: "regExpMatch \<Rightarrow> stage1Item" where
  "stage1ItemOf m =
     (let body = group2 m in
      \<lparr>stage1Item.index = parseInt (group1 m),
       fact = normalizeWhitespace (field [str ''Fact''] body),
       insight = normalizeWhitespace (field [str ''Investor Insight'', str ''Implication''] body)\<rparr>)"

text \<open>
  The loop \<open>while ((match = editBlockRegex.exec(raw)) !== null)\<close> of \<open>parseStage1\<close>,
  from the regular expression's \<open>lastIndex\<close> and the results so far to the results
  and the \<open>lastIndex\<close> at the exit.
\<close>

function parseStage1_loop :: "jsstring \<Rightarrow> nat \<Rightarrow> stage1Item list \<Rightarrow> stage1Item list \<times> nat" where
  "parseStage1_loop raw li results =
     (case exec editBlockRegex raw li of
        (None, li') \<Rightarrow> (results, li')
      | (Some m, li') \<Rightarrow> parseStage1_loop raw li' (results @ [stage1ItemOf m]))"
  by pat_completeness auto
termination
  by (relation "measure (\<lambda>(raw, li, results). Suc (length raw) - li)")
     (auto simp: editBlockRegex_def dest!: exec_advances[OF blockRegex_productive, OF sym])

declare parseStage1_loop.simps [simp del]

text \<open>\<open>parseStage1\<close>: \<open>!raw\<close> holds for null, undefined and the empty string.\<close>

fun parseStage1 :: "jsstring nullable \<Rightarrow> regexState \<Rightarrow> stage1Item list \<times> regexState" where
  "parseStage1 (Val raw) st =
     (if raw = [] then ([], st)
      else (case parseStage1_loop raw (editBlockLast st) [] of
              (results, li) \<Rightarrow> (results, st\<lparr>editBlockLast := li\<rparr>)))"
| "parseStage1 Null st = ([], st)"
| "parseStage1 Undefined st = ([], st)"

text \<open>\<open>body.split(/\n+/)\<close>.\<close>

function splitLines :: "jsstring \<Rightarrow> jsstring list" where
  "splitLines s =
     (if dropWhile (\<lambda>c. c \<noteq> 0x0A) s = [] then [s]
      else takeWhile (\<lambda>c. c \<noteq> 0x0A) s
           # splitLines (dropWhile (\<lambda>c. c = 0x0A) (dropWhile (\<lambda>c. c \<noteq> 0x0A) s)))"
  by pat_completeness auto
termination
proof (relation "measure length")
  fix s :: jsstring
  assume ne: "dropWhile (\<lambda>c. c \<noteq> 0x0A) s \<noteq> []"
  let ?r = "dropWhile (\<lambda>c. c \<noteq> 0x0A) s"
  from ne have "hd ?r = 0x0A" using hd_dropWhile[of "\<lambda>c. c \<noteq> 0x0A" s] by simp
  with ne obtain t where r: "?r = 0x0A # t" by (cases ?r) auto
  have "length (dropWhile (\<lambda>c. c = 0x0A) ?r) \<le> length t"
    unfolding r by (simp add: length_dropWhile_le)
  moreover have "length ?r \<le> length s" by (rule length_dropWhile_le)
  ultimately show "(dropWhile (\<lambda>c. c = 0x0A) ?r, s) \<in> measure length"
    using r by simp
qed simp

text \<open>\<open>line.includes(p)\<close>.\<close>

fun includesStr :: "jsstring \<Rightarrow> jsstring \<Rightarrow> bool" where
  "includesStr [] p = (p = [])"
| "includesStr (c # cs) p = (lit p (c # cs) \<noteq> None \<or> includesStr cs p)"

text \<open>\<open>line.match(/\d+/g)\<close>: the maximal runs of digits, left to right.\<close>

function digitRuns :: "jsstring \<Rightarrow> jsstring list" where
  "digitRuns [] = []"
| "digitRuns (c # cs) =
     (if isDigit c then takeWhile isDigit (c # cs) # digitRuns (dropWhile isDigit cs)
      else digitRuns cs)"
  by pat_completeness auto
termination
  by (relation "measure length") (auto simp: length_dropWhile_le less_Suc_eq_le)

text \<open>The marker of the line of related edits, U+8A72 U+5F53 U+3059 U+308B U+7DE8 U+96C6 U+756A U+53F7.\<close>

definition relatedMarker :: jsstring where
  "relatedMarker = [0x8A72, 0x5F53, 0x3059, 0x308B, 0x7DE8, 0x96C6, 0x756A, 0x53F7]"

definition relatedEditsOf :: "jsstring \<Rightarrow> number list" where
  "relatedEditsOf body =
     (case find (\<lambda>line. includesStr line relatedMarker) (splitLines body) of
        None \<Rightarrow> []
      | Some relatedLine \<Rightarrow> map parseInt (digitRuns relatedLine))"

definition stage2ClusterOf :: "regExpMatch \<Rightarrow> stage2Cluster" where
  "stage2ClusterOf m =
     (let body = group2 m in
      \<lparr>stage2Cluster.index = parseInt (group1 m),
       theme = normalizeWhitespace (field [str ''Theme''] body),
       summary = normalizeWhitespace (field [str ''Summary''] body),
       investorInsight = normalizeWhitespace (field [str ''Investor Insight''] body),
       relatedEdits = relatedEditsOf body\<rparr>)"

function parseStage2_loop :: "jsstring \<Rightarrow> nat \<Rightarrow> stage2Cluster list \<Rightarrow> stage2Cluster list \<times> nat" where
  "parseStage2_loop raw li clusters =
     (case exec clusterBlockRegex raw li of
        (None, li') \<Rightarrow> (clusters, li')
      | (Some m, li') \<Rightarrow> parseStage2_loop raw li' (clusters @ [stage2ClusterOf m]))"
  by pat_completeness auto
termination
  by (relation "measure (\<lambda>(raw, li, clusters). Suc (length raw) - li)")
     (auto simp: clusterBlockRegex_def dest!: exec_advances[OF blockRegex_productive, OF sym])

declare parseStage2_loop.simps [simp del]

fun parseStage2 :: "jsstring nullable \<Rightarrow> regexState \<Rightarrow> stage2Cluster list \<times> regexState" where
  "parseStage2 (Val raw) st =
     (if raw = [] then ([], st)
      else (case parseStage2_loop raw (clusterBlockLast st) [] of
              (clusters, li) \<Rightarrow> (clusters, st\<lparr>clusterBlockLast := li\<rparr>)))"
| "parseStage2 Null st = ([], st)"
| "parseStage2 Undefined st = ([], st)"

section \<open>Segment Tokenizer\<close>

text \<open>\<open>s.slice(a, b)\<close> and \<open>s.slice(a)\<close> for indices that are not negative.\<close>

definition slice :: "jsstring \<Rightarrow> nat \<Rightarrow> nat \<Rightarrow> jsstring" where
  "slice s a b = take (b - a) (drop a s)"

definition segmentOf :: "regExpMatch \<Rightarrow> diffSegment" where
  "segmentOf m = \<lparr>type = (if group1 m = str ''add'' then Add else Del), content = group2 m\<rparr>"

text \<open>
  The loop of \<open>toDiffSegments\<close>: the state is \<open>addDelRegex.lastIndex\<close>, the local
  variable \<open>lastIndex\<close> and the segments pushed so far.
\<close>

function toDiffSegments_loop ::
  "jsstring \<Rightarrow> nat \<Rightarrow> nat \<Rightarrow> diffSegment list \<Rightarrow> diffSegment list \<times> nat \<times> nat" where
  "toDiffSegments_loop cleaned li lastIndex segs =
     (case exec addDelRegex cleaned li of
        (None, li') \<Rightarrow> (segs, lastIndex, li')
      | (Some m, li') \<Rightarrow>
          toDiffSegments_loop cleaned li' (matchIndex m + length (full m))
            ((if matchIndex m > lastIndex
                 \<and> length (trim (slice cleaned lastIndex (matchIndex m))) > 0
              then segs @ [\<lparr>type = Text, content = slice cleaned lastIndex (matchIndex m)\<rparr>]
              else segs)
             @ [segmentOf m]))"
  by pat_completeness auto
termination
  by (relation "measure (\<lambda>(cleaned, li, lastIndex, segs). Suc (length cleaned) - li)")
     (auto dest!: exec_advances[OF addDelRegex_productive, OF sym])

declare toDiffSegments_loop.simps [simp del]

definition toDiffSegments :: "jsstring \<Rightarrow> regexState \<Rightarrow> diffSegment list \<times> regexState" where
  "toDiffSegments raw st =
     (case toDiffSegments_loop raw (addDelLast st) 0 [] of
        (segs, lastIndex, li) \<Rightarrow>
          ((if length (trim (drop lastIndex raw)) > 0
            then segs @ [\<lparr>type = Text, content = drop lastIndex raw\<rparr>]
            else segs),
           st\<lparr>addDelLast := li\<rparr>))"

section \<open>Edit-Wrapper Scanner and Diff Record Builder\<close>

text \<open>
  The body of \<open>pairs.forEach\<close>: the loop over the matches of \<open>editWrapperRegex\<close>
  in the text of one pair. \<open>toDiffSegments\<close> runs inside the loop, on the state of
  the module.
\<close>

function scanPair ::
  "processedSentencePair \<Rightarrow> nat \<Rightarrow> jsstring \<Rightarrow> regexState \<Rightarrow> diffRecord list
   \<Rightarrow> diffRecord list \<times> regexState" where
  "scanPair pair pairIndex text st results =
     (case exec editWrapperRegex text (editWrapperLast st) of
        (None, li') \<Rightarrow> (results, st\<lparr>editWrapperLast := li'\<rparr>)
      | (Some m, li') \<Rightarrow>
          (case toDiffSegments (group2 m) (st\<lparr>editWrapperLast := li'\<rparr>) of
             (segs, st') \<Rightarrow>
               scanPair pair pairIndex text st'
                 (results @ [\<lparr>editIndex = parseInt (group1 m), sectionIndex = pairIndex,
                               oldHeading = processedSentencePair.oldHeading pair,
                               newHeading = processedSentencePair.newHeading pair,
                               segments = segs\<rparr>])))"
  by pat_completeness auto
termination
  by (relation "measure (\<lambda>(pair, pairIndex, text, st, results).
        Suc (length text) - editWrapperLast st)")
     (auto simp: toDiffSegments_def split: prod.splits
           dest!: exec_advances[OF editWrapperRegex_productive, OF sym])

declare scanPair.simps [simp del]

text \<open>
  \<open>buildDiffRecords\<close>. \<open>pair.processedSentencePair ?? ""\<close> is the text of a pair;
  \<open>forEach\<close> passes the position of the pair in the array. \<open>Array.prototype.sort\<close>
  is stable, and the comparator \<open>a.editIndex - b.editIndex\<close> orders by
  \<open>editIndex\<close>: the result is the stable sort by that key.
\<close>

fun textOf :: "jsstring nullable \<Rightarrow> jsstring" where
  "textOf (Val s) = s"
| "textOf Null = []"
| "textOf Undefined = []"

definition forEachPair ::
  "processedSentencePair list \<Rightarrow> regexState \<Rightarrow> diffRecord list \<times> regexState" where
  "forEachPair pairs st =
     fold (\<lambda>(pairIndex, pair) (results, st).
             scanPair pair pairIndex (textOf (processedSentencePair pair)) st results)
          (List.enumerate 0 pairs) ([], st)"

fun buildDiffRecords ::
  "processedSentencePair list nullable \<Rightarrow> regexState \<Rightarrow> diffRecord list \<times> regexState" where
  "buildDiffRecords (Val pairs) st =
     (if length pairs = 0 then ([], st)
      else (case forEachPair pairs st of
              (results, st') \<Rightarrow> (sort_key editIndex results, st')))"
| "buildDiffRecords Null st = ([], st)"
| "buildDiffRecords Undefined st = ([], st)"

section \<open>Calls outside the declared types\<close>





section \<open>The matches of a loop\<close>

text \<open>
  The results of \<open>re.exec(text)\<close> called again and again until it returns null,
  from \<open>lastIndex = li\<close>: the matches that a loop
  \<open>while ((match = re.exec(text)) !== null)\<close> sees, in order. (The test
  \<open>li < li'\<close> makes the definition total; it holds at every step when the regular
  expression has no empty match, as the four of the module.)
\<close>

function execAll :: "regex \<Rightarrow> jsstring \<Rightarrow> nat \<Rightarrow> regExpMatch list" where
  "execAll re text li =
     (case exec re text li of
        (None, li') \<Rightarrow> []
      | (Some m, li') \<Rightarrow> (if li < li' then m # execAll re text li' else [m]))"
  by pat_completeness auto
termination
  by (relation "measure (\<lambda>(re, text, li). Suc (length text) - li)")
     (auto simp: exec_def split: if_splits)

declare execAll.simps [simp del]

text \<open>
  The Segment Tokenizer in the words of its contract, to compare \<open>toDiffSegments\<close>
  with. The segments of a text come from the matches of \<open>addDelRegex\<close> in it, in
  scan order: the text between the end of the match before (or position \<open>k\<close>) and
  the start of a match becomes a text segment only if it is not blank after trimming,
  the match becomes an \<open>add\<close> or \<open>del\<close> segment whose content is the captured
  text as it stands, and the text behind the last match is a gap like the others.
\<close>

definition spec_gap :: "jsstring \<Rightarrow> diffSegment list" where
  "spec_gap g = (if length (trim g) > 0 then [\<lparr>type = Text, content = g\<rparr>] else [])"

fun spec_segments :: "jsstring \<Rightarrow> nat \<Rightarrow> regExpMatch list \<Rightarrow> diffSegment list" where
  "spec_segments raw k [] = spec_gap (drop k raw)"
| "spec_segments raw k (m # ms) =
     spec_gap (slice raw k (matchIndex m)) @ [segmentOf m]
     @ spec_segments raw (matchIndex m + length (full m)) ms"

text \<open>The record that \<open>scanPair\<close> pushes for a match, tokenized in the initial state.\<close>

definition recordOf :: "processedSentencePair \<Rightarrow> nat \<Rightarrow> regExpMatch \<Rightarrow> diffRecord" where
  "recordOf pair pairIndex m =
     \<lparr>editIndex = parseInt (group1 m), sectionIndex = pairIndex,
      oldHeading = processedSentencePair.oldHeading pair,
      newHeading = processedSentencePair.newHeading pair,
      segments = fst (toDiffSegments (group2 m) initialState)\<rparr>"

text \<open>
  A text read as a sequence of pieces: gaps and \<open>add\<close>/\<open>del\<close> spans. \<open>render\<close>
  writes a piece as it stands in the text; \<open>emit\<close> gives the segments it leaves:
  a span loses its tags, a blank gap is dropped.
\<close>

datatype piece = Gap jsstring | AddSpan jsstring | DelSpan jsstring

fun render :: "piece \<Rightarrow> jsstring" where
  "render (Gap g) = g"
| "render (AddSpan c) = str ''<add>'' @ c @ str ''</add>''"
| "render (DelSpan c) = str ''<del>'' @ c @ str ''</del>''"

fun emit :: "piece \<Rightarrow> diffSegment list" where
  "emit (Gap g) = (if length (trim g) > 0 then [\<lparr>type = Text, content = g\<rparr>] else [])"
| "emit (AddSpan c) = [\<lparr>type = Add, content = c\<rparr>]"
| "emit (DelSpan c) = [\<lparr>type = Del, content = c\<rparr>]"

text \<open>
  \<open>kept\<close> is what a piece leaves in the concatenated contents of the segments.
  \<open>pieces raw k ms\<close> are the pieces of the text \<open>raw\<close> from position \<open>k\<close> on,
  as the matches \<open>ms\<close> of \<open>addDelRegex\<close> cut it: the gap in front of each match,
  the span of the match, and the gap behind the last match.
\<close>

fun kept :: "piece \<Rightarrow> jsstring" where
  "kept (Gap g) = (if length (trim g) > 0 then g else [])"
| "kept (AddSpan c) = c"
| "kept (DelSpan c) = c"

definition spanOf :: "regExpMatch \<Rightarrow> piece" where
  "spanOf m = (if group1 m = str ''add'' then AddSpan (group2 m) else DelSpan (group2 m))"

fun pieces :: "jsstring \<Rightarrow> nat \<Rightarrow> regExpMatch list \<Rightarrow> piece list" where
  "pieces raw k [] = [Gap (drop k raw)]"
| "pieces raw k (m # ms) =
     Gap (slice raw k (matchIndex m)) # spanOf m
     # pieces raw (matchIndex m + length (full m)) ms"

section \<open>Facts about the loops\<close>

lemma execAll_None: "exec re raw li = (None, li') \<Longrightarrow> execAll re raw li = []"
  by (simp add: execAll.simps[of re raw li])

lemma execAll_Some:
  "productive re \<Longrightarrow> exec re raw li = (Some m, li') \<Longrightarrow>
   execAll re raw li = m # execAll re raw li'"
  using exec_advances[of re raw li m li'] by (simp add: execAll.simps[of re raw li])

lemma editBlockRegex_productive: "productive editBlockRegex"
  by (simp add: editBlockRegex_def blockRegex_productive)

lemma clusterBlockRegex_productive: "productive clusterBlockRegex"
  by (simp add: clusterBlockRegex_def blockRegex_productive)

lemma parseStage1_loop_eq:
  "parseStage1_loop raw li acc = (acc @ map stage1ItemOf (execAll editBlockRegex raw li), 0)"
proof (induction raw li acc rule: parseStage1_loop.induct)
  case (1 raw li results)
  obtain mo li' where e: "exec editBlockRegex raw li = (mo, li')"
    by (cases "exec editBlockRegex raw li")
  show ?case
  proof (cases mo)
    case None
    with e show ?thesis
      by (simp add: parseStage1_loop.simps[of raw li] exec_None execAll_None)
  next
    case (Some m)
    with e "1.IH"[OF e[symmetric]] show ?thesis
      by (simp add: parseStage1_loop.simps[of raw li] execAll_Some[OF editBlockRegex_productive])
  qed
qed

lemma parseStage2_loop_eq:
  "parseStage2_loop raw li acc = (acc @ map stage2ClusterOf (execAll clusterBlockRegex raw li), 0)"
proof (induction raw li acc rule: parseStage2_loop.induct)
  case (1 raw li clusters)
  obtain mo li' where e: "exec clusterBlockRegex raw li = (mo, li')"
    by (cases "exec clusterBlockRegex raw li")
  show ?case
  proof (cases mo)
    case None
    with e show ?thesis
      by (simp add: parseStage2_loop.simps[of raw li] exec_None execAll_None)
  next
    case (Some m)
    with e "1.IH"[OF e[symmetric]] show ?thesis
      by (simp add: parseStage2_loop.simps[of raw li] execAll_Some[OF clusterBlockRegex_productive])
  qed
qed

lemma spec_gap_Nil [simp]: "spec_gap [] = []"
  by (simp add: spec_gap_def trim_def)

lemma toDiffSegments_loop_eq:
  "case toDiffSegments_loop raw li k acc of
     (segs, k', li') \<Rightarrow>
       segs @ spec_gap (drop k' raw) = acc @ spec_segments raw k (execAll addDelRegex raw li)
       \<and> li' = 0"
proof (induction raw li k acc rule: toDiffSegments_loop.induct)
  case (1 cleaned li lastIndex segs)
  obtain mo li' where e: "exec addDelRegex cleaned li = (mo, li')"
    by (cases "exec addDelRegex cleaned li")
  show ?case
  proof (cases mo)
    case None
    with e show ?thesis
      by (simp add: toDiffSegments_loop.simps[of cleaned li] exec_None execAll_None)
  next
    case (Some m)
    have gap: "(if matchIndex m > lastIndex
                 \<and> length (trim (slice cleaned lastIndex (matchIndex m))) > 0
              then segs @ [\<lparr>type = Text, content = slice cleaned lastIndex (matchIndex m)\<rparr>]
              else segs) = segs @ spec_gap (slice cleaned lastIndex (matchIndex m))"
    proof (cases "matchIndex m > lastIndex")
      case True
      then show ?thesis by (simp add: spec_gap_def)
    next
      case False
      then have "slice cleaned lastIndex (matchIndex m) = []" by (simp add: slice_def)
      with False show ?thesis by simp
    qed
    have step: "toDiffSegments_loop cleaned li lastIndex segs
        = toDiffSegments_loop cleaned li' (matchIndex m + length (full m))
            ((segs @ spec_gap (slice cleaned lastIndex (matchIndex m))) @ [segmentOf m])"
      by (subst toDiffSegments_loop.simps) (simp only: e Some gap prod.case option.case)
    note ih = "1.IH"[OF e[symmetric] Some, unfolded gap]
    show ?thesis
      using ih unfolding step execAll_Some[OF addDelRegex_productive e[unfolded Some]]
      by (simp split: prod.splits)
  qed
qed

lemma toDiffSegments_eq:
  "toDiffSegments raw st =
     (spec_segments raw 0 (execAll addDelRegex raw (addDelLast st)), st\<lparr>addDelLast := 0\<rparr>)"
  using toDiffSegments_loop_eq[where raw = raw and li = "addDelLast st" and k = 0 and acc = "[]"]
  by (auto simp: toDiffSegments_def spec_gap_def split: prod.splits)

lemma toDiffSegments_fst:
  "addDelLast st = 0 \<Longrightarrow> fst (toDiffSegments raw st) = fst (toDiffSegments raw initialState)"
  by (simp add: toDiffSegments_eq initialState_def)

lemma toDiffSegments_snd:
  "snd (toDiffSegments raw st) = st\<lparr>addDelLast := 0\<rparr>"
  by (simp add: toDiffSegments_eq)

lemma scanPair_eq:
  "addDelLast st = 0 \<Longrightarrow>
   scanPair pair i raw st acc =
     (acc @ map (recordOf pair i) (execAll editWrapperRegex raw (editWrapperLast st)),
      st\<lparr>editWrapperLast := 0\<rparr>)"
proof (induction pair i raw st acc rule: scanPair.induct)
  case (1 pair pairIndex raw st results)
  obtain mo li' where e: "exec editWrapperRegex raw (editWrapperLast st) = (mo, li')"
    by (cases "exec editWrapperRegex raw (editWrapperLast st)")
  show ?case
  proof (cases mo)
    case None
    with e show ?thesis
      by (simp add: scanPair.simps[of pair pairIndex raw st] exec_None execAll_None)
  next
    case (Some m)
    let ?st1 = "st\<lparr>editWrapperLast := li'\<rparr>"
    obtain segs st' where t: "toDiffSegments (group2 m) ?st1 = (segs, st')"
      by (cases "toDiffSegments (group2 m) ?st1")
    from "1.prems" have a0: "addDelLast ?st1 = 0" by simp
    from t have segs: "segs = fst (toDiffSegments (group2 m) initialState)"
      using toDiffSegments_fst[OF a0, of "group2 m"] by simp
    from t have st': "st' = ?st1\<lparr>addDelLast := 0\<rparr>"
      using toDiffSegments_snd[of "group2 m" ?st1] by simp
    with "1.prems" have st'': "st' = ?st1" by simp
    have ih: "scanPair pair pairIndex raw st'
        (results @ [\<lparr>editIndex = parseInt (group1 m), sectionIndex = pairIndex,
                      oldHeading = processedSentencePair.oldHeading pair,
                      newHeading = processedSentencePair.newHeading pair,
                      segments = segs\<rparr>])
      = ((results @ [\<lparr>editIndex = parseInt (group1 m), sectionIndex = pairIndex,
                      oldHeading = processedSentencePair.oldHeading pair,
                      newHeading = processedSentencePair.newHeading pair,
                      segments = segs\<rparr>])
         @ map (recordOf pair pairIndex) (execAll editWrapperRegex raw (editWrapperLast st')),
         st'\<lparr>editWrapperLast := 0\<rparr>)"
      using "1.IH"[OF e[symmetric] Some t[symmetric]] "1.prems" st'' by simp
    have step: "scanPair pair pairIndex raw st results
      = scanPair pair pairIndex raw st'
        (results @ [\<lparr>editIndex = parseInt (group1 m), sectionIndex = pairIndex,
                      oldHeading = processedSentencePair.oldHeading pair,
                      newHeading = processedSentencePair.newHeading pair,
                      segments = segs\<rparr>])"
      by (subst scanPair.simps) (simp only: e Some t prod.case option.case)
    show ?thesis
      unfolding step ih
      using execAll_Some[OF editWrapperRegex_productive e[unfolded Some]] st'' segs
      by (simp add: recordOf_def)
  qed
qed

lemma initialState_simps [simp]:
  "addDelLast initialState = 0" "editWrapperLast initialState = 0"
  "editBlockLast initialState = 0" "clusterBlockLast initialState = 0"
  "initialState\<lparr>editWrapperLast := 0\<rparr> = initialState"
  "initialState\<lparr>addDelLast := 0\<rparr> = initialState"
  "initialState\<lparr>editBlockLast := 0\<rparr> = initialState"
  "initialState\<lparr>clusterBlockLast := 0\<rparr> = initialState"
  by (simp_all add: initialState_def)

lemma scanPair_initial:
  "scanPair pair i raw initialState acc = (acc @ fst (scanPair pair i raw initialState []), initialState)"
  by (simp add: scanPair_eq)

lemma fold_scanPair:
  "fold (\<lambda>(pairIndex, pair) (results, st).
             scanPair pair pairIndex (textOf (processedSentencePair pair)) st results)
        (List.enumerate n pairs) (acc, initialState)
   = (acc @ concat (map (\<lambda>(pairIndex, pair).
              fst (scanPair pair pairIndex (textOf (processedSentencePair pair)) initialState []))
            (List.enumerate n pairs)), initialState)"
proof (induction pairs arbitrary: n acc)
  case Nil
  then show ?case by simp
next
  case (Cons p ps)
  show ?case
    by (simp add: scanPair_initial[of p n _ acc] Cons.IH)
qed

lemma forEachPair_eq:
  "forEachPair pairs initialState
   = (concat (map (\<lambda>(pairIndex, pair).
              fst (scanPair pair pairIndex (textOf (processedSentencePair pair)) initialState []))
            (List.enumerate 0 pairs)), initialState)"
  unfolding forEachPair_def using fold_scanPair[of 0 pairs "[]"] by simp

section \<open>Rounding of index tokens\<close>

lemma bitLength_Suc_0: "bitLength (Suc 0) = Suc 0"
  by (simp add: bitLength.simps[of "Suc 0"] bitLength.simps[of 0])

lemma bitLength_numeral: "bitLength (numeral k) = Suc (bitLength (numeral k div 2))"
  by (subst bitLength.simps) simp

lemma bitLength_54:
  "bitLength 9007199254740992 = 54" "bitLength 9007199254740993 = 54"
  "bitLength 9007199254740995 = 54"
  by (simp_all add: bitLength_numeral bitLength_Suc_0)

text \<open>
  Up to \<open>2^53\<close> a token keeps its value; \<open>2^53 + 1\<close> lies halfway between two doubles
  and goes to the even one below, \<open>2^53 + 3\<close> to the even one above.
\<close>

lemma toNumber_rounds:
  "toNumber 9007199254740991 = 9007199254740991
   \<and> toNumber 9007199254740992 = 9007199254740992
   \<and> toNumber 9007199254740993 = 9007199254740992
   \<and> toNumber 9007199254740995 = 9007199254740996"
  by (simp add: toNumber_def bitLength_54 Let_def enat_numeral)

section \<open>Properties of the Metrics Aggregator\<close>

lemma fold_countSegment:
  "fold countSegment segs acc =
     acc\<lparr>adds := adds acc + length (filter (\<lambda>s. type s = Add) segs),
         deletes := deletes acc + length (filter (\<lambda>s. type s = Del) segs)\<rparr>"
  by (induction segs arbitrary: acc) (simp_all add: countSegment_def)

lemma fold_countRecord:
  "fold countRecord rs acc =
     \<lparr>adds = adds acc + (\<Sum>r\<leftarrow>rs. length (filter (\<lambda>s. type s = Add) (segments r))),
      deletes = deletes acc + (\<Sum>r\<leftarrow>rs. length (filter (\<lambda>s. type s = Del) (segments r))),
      edits = edits acc + length rs\<rparr>"
  by (induction rs arbitrary: acc) (simp_all add: countRecord_def fold_countSegment)

text \<open>
  Claim C4. \<open>adds\<close> is the number of \<open>add\<close> segments over all records, \<open>deletes\<close>
  the number of \<open>del\<close> segments, and \<open>edits\<close> the number of records, whatever
  their \<open>editIndex\<close>: two records of one edit count twice, and three records
  of one \<open>add\<close> and one \<open>del\<close> segment each give \<open>{adds: 3, deletes: 3, edits: 3}\<close>.
\<close>

theorem computeDiffMetrics_counts:
  "adds (computeDiffMetrics rs) = (\<Sum>r\<leftarrow>rs. length (filter (\<lambda>s. type s = Add) (segments r)))
   \<and> deletes (computeDiffMetrics rs) = (\<Sum>r\<leftarrow>rs. length (filter (\<lambda>s. type s = Del) (segments r)))
   \<and> edits (computeDiffMetrics rs) = length rs
   \<and> edits (computeDiffMetrics
        [\<lparr>editIndex = e, sectionIndex = i, oldHeading = h1, newHeading = h2, segments = ss\<rparr>,
         \<lparr>editIndex = e, sectionIndex = j, oldHeading = h3, newHeading = h4, segments = ts\<rparr>]) = 2
   \<and> computeDiffMetrics
        [\<lparr>editIndex = e1, sectionIndex = i1, oldHeading = a1, newHeading = b1,
          segments = [\<lparr>type = Add, content = x1\<rparr>, \<lparr>type = Del, content = y1\<rparr>]\<rparr>,
         \<lparr>editIndex = e2, sectionIndex = i2, oldHeading = a2, newHeading = b2,
          segments = [\<lparr>type = Add, content = x2\<rparr>, \<lparr>type = Del, content = y2\<rparr>]\<rparr>,
         \<lparr>editIndex = e3, sectionIndex = i3, oldHeading = a3, newHeading = b3,
          segments = [\<lparr>type = Add, content = x3\<rparr>, \<lparr>type = Del, content = y3\<rparr>]\<rparr>]
       = \<lparr>adds = 3, deletes = 3, edits = 3\<rparr>"
  unfolding computeDiffMetrics_def fold_countRecord by simp

section \<open>Properties of the Heading Filter\<close>

lemma isChapterOneHeading_iff:
  "isChapterOneHeading h = (\<exists>a. h = Val a \<and> startsWith a (str ''1''))"
  by (cases h) simp_all

text \<open>
  Claim C7, as the code has it. A section is in scope exactly when both of its
  headings are strings that begin with \<open>"1"\<close>. A diff record is in scope exactly
  when both of its effective headings are: its own heading where that is a string
  (or any non-null value), and the heading of the section stored under its
  \<open>sectionIndex\<close> where its own is null or undefined. A record whose old heading
  is \<open>"2.1 Overview"\<close> is excluded; one whose headings are both
  \<open>"1. Business Overview"\<close> is included.
\<close>

theorem heading_scope_iff:
  "(section \<in> set (visibleSections sections) \<longleftrightarrow>
      section \<in> set sections \<and>
      (\<exists>a b. sectionContentRecord.oldHeading section = Val a \<and>
             sectionContentRecord.newHeading section = Val b \<and>
             startsWith a (str ''1'') \<and> startsWith b (str ''1'')))
   \<and> (record \<in> set (filteredDiffRecords sections (Val records)) \<longleftrightarrow>
      record \<in> set records \<and>
      (\<exists>a b. nullish (diffRecord.oldHeading record)
               (sectionOldHeading (sectionMap sections (sectionIndex record))) = Val a \<and>
             nullish (diffRecord.newHeading record)
               (sectionNewHeading (sectionMap sections (sectionIndex record))) = Val b \<and>
             startsWith a (str ''1'') \<and> startsWith b (str ''1'')))
   \<and> \<not> recordInScope smap
        \<lparr>editIndex = e, sectionIndex = i, oldHeading = Val (str ''2.1 Overview''),
         newHeading = h, segments = ss\<rparr>
   \<and> recordInScope smap
        \<lparr>editIndex = e, sectionIndex = i, oldHeading = Val (str ''1. Business Overview''),
         newHeading = Val (str ''1. Business Overview''), segments = ss\<rparr>"
proof -
  have sec: "section \<in> set (visibleSections sections) \<longleftrightarrow>
      section \<in> set sections \<and>
      (\<exists>a b. sectionContentRecord.oldHeading section = Val a \<and>
             sectionContentRecord.newHeading section = Val b \<and>
             startsWith a (str ''1'') \<and> startsWith b (str ''1''))"
    by (auto simp: visibleSections_def isChapterOneHeading_iff)
  have rec: "record \<in> set (filteredDiffRecords sections (Val records)) \<longleftrightarrow>
      record \<in> set records \<and>
      (\<exists>a b. nullish (diffRecord.oldHeading record)
               (sectionOldHeading (sectionMap sections (sectionIndex record))) = Val a \<and>
             nullish (diffRecord.newHeading record)
               (sectionNewHeading (sectionMap sections (sectionIndex record))) = Val b \<and>
             startsWith a (str ''1'') \<and> startsWith b (str ''1''))"
    by (auto simp: recordInScope_def Let_def isChapterOneHeading_iff)
  have out: "\<not> recordInScope smap
        \<lparr>editIndex = e, sectionIndex = i, oldHeading = Val (str ''2.1 Overview''),
         newHeading = h, segments = ss\<rparr>"
    by (simp add: recordInScope_def startsWith_def str_def)
  have incl: "recordInScope smap
        \<lparr>editIndex = e, sectionIndex = i, oldHeading = Val (str ''1. Business Overview''),
         newHeading = Val (str ''1. Business Overview''), segments = ss\<rparr>"
    by (simp add: recordInScope_def startsWith_def str_def)
  from sec rec out incl show ?thesis by blast
qed

text \<open>
  Claim C7 as stated fails for a diff record: a record whose own headings are both
  null is kept when the section stored under its \<open>sectionIndex\<close> has headings that
  begin with \<open>"1"\<close>.
\<close>

theorem heading_scope_counterexample:
  "filteredDiffRecords
     [\<lparr>index = 0, oldHeading = Val (str ''1. Overview''), newHeading = Val (str ''1. Overview''),
       oldContent = Null, newContent = Null\<rparr>]
     (Val [\<lparr>editIndex = 1, sectionIndex = 0, oldHeading = Null, newHeading = Null,
            segments = []\<rparr>])
   = [\<lparr>editIndex = 1, sectionIndex = 0, oldHeading = Null, newHeading = Null, segments = []\<rparr>]
   \<and> \<not> isChapterOneHeading (diffRecord.oldHeading
        \<lparr>editIndex = 1, sectionIndex = 0, oldHeading = Null, newHeading = Null, segments = []\<rparr>)
   \<and> \<not> isChapterOneHeading (diffRecord.newHeading
        \<lparr>editIndex = 1, sectionIndex = 0, oldHeading = Null, newHeading = Null, segments = []\<rparr>)"
  by (simp add: recordInScope_def sectionMap_def startsWith_def str_def)

text \<open>
  Claim C10. In the scope test of a diff record, a heading of the record that is
  not null or undefined is the one tested, whatever the section map holds under the
  record's \<open>sectionIndex\<close>; the section's heading is read only for a heading
  the record lacks. So a record with both headings of its own is filtered by them
  alone: it is kept with headings \<open>"1 A"\<close> although its section's are \<open>"2 B"\<close>, and
  dropped with headings \<open>"2 B"\<close> although its section's are \<open>"1 A"\<close>.
\<close>

theorem record_headings_take_precedence:
  "recordInScope smap
     \<lparr>editIndex = e, sectionIndex = i, oldHeading = Val a, newHeading = Val b, segments = ss\<rparr>
     = (startsWith a (str ''1'') \<and> startsWith b (str ''1''))
   \<and> recordInScope smap
     \<lparr>editIndex = e, sectionIndex = i, oldHeading = Null, newHeading = Val b, segments = ss\<rparr>
     = (isChapterOneHeading (sectionOldHeading (smap i)) \<and> startsWith b (str ''1''))
   \<and> recordInScope smap
     \<lparr>editIndex = e, sectionIndex = i, oldHeading = Val a, newHeading = Undefined, segments = ss\<rparr>
     = (startsWith a (str ''1'') \<and> isChapterOneHeading (sectionNewHeading (smap i)))
   \<and> filteredDiffRecords
       [\<lparr>index = 0, oldHeading = Val (str ''2 B''), newHeading = Val (str ''2 B''),
         oldContent = Null, newContent = Null\<rparr>]
       (Val [\<lparr>editIndex = 1, sectionIndex = 0, oldHeading = Val (str ''1 A''),
              newHeading = Val (str ''1 A''), segments = []\<rparr>])
     = [\<lparr>editIndex = 1, sectionIndex = 0, oldHeading = Val (str ''1 A''),
         newHeading = Val (str ''1 A''), segments = []\<rparr>]
   \<and> filteredDiffRecords
       [\<lparr>index = 0, oldHeading = Val (str ''1 A''), newHeading = Val (str ''1 A''),
         oldContent = Null, newContent = Null\<rparr>]
       (Val [\<lparr>editIndex = 1, sectionIndex = 0, oldHeading = Val (str ''2 B''),
              newHeading = Val (str ''2 B''), segments = []\<rparr>])
     = []"
  by (simp add: recordInScope_def sectionMap_def startsWith_def str_def)

lemma enat_Suc_0: "enat (Suc 0) = 1"
  by (simp add: one_enat_def)

lemmas regex_defs = str_def isSpace_def isDigit_def spaces1_def closeBlock_def blockRegex_def
  editBlockRegex_def clusterBlockRegex_def addDelRegex_def closeWrapper_def editWrapperRegex_def
  exec_def

lemmas eval_defs = regex_defs stage1ItemOf_def normalizeWhitespace_def trim_def field_def
  parseInt_def decimal_def toNumber_def enat_numeral enat_0 enat_1 enat_Suc_0
  toDiffSegments_def slice_def segmentOf_def forEachPair_def enumerate_eq_zip
  parseStage1_loop.simps toDiffSegments_loop.simps scanPair.simps execAll.simps

section \<open>Properties of the Diff Record Builder\<close>

text \<open>
  Claim C2. The result of \<open>buildDiffRecords\<close> is ascending in \<open>editIndex\<close>; it is a
  permutation of the records of the sections, each section scanned on its own, taken
  in the order of the sections; and the records of one \<open>editIndex\<close> keep the order
  they have there (the sort is stable). With one section of an edit 5 and one of an
  edit 2, the record of edit 2 comes first, whichever section comes first.
\<close>

theorem buildDiffRecords_sorted_stable:
  "sorted (map editIndex (fst (buildDiffRecords (Val pairs) initialState)))
   \<and> mset (fst (buildDiffRecords (Val pairs) initialState))
     = mset (concat (map (\<lambda>(pairIndex, pair).
          fst (scanPair pair pairIndex (textOf (processedSentencePair pair)) initialState []))
        (List.enumerate 0 pairs)))
   \<and> (\<forall>k. filter (\<lambda>r. editIndex r = k) (fst (buildDiffRecords (Val pairs) initialState))
     = filter (\<lambda>r. editIndex r = k) (concat (map (\<lambda>(pairIndex, pair).
          fst (scanPair pair pairIndex (textOf (processedSentencePair pair)) initialState []))
        (List.enumerate 0 pairs))))
   \<and> map (\<lambda>r. (editIndex r, sectionIndex r))
       (fst (buildDiffRecords (Val
         [\<lparr>processedSentencePair.oldHeading = h1, newHeading = h2,
           processedSentencePair = Val (str ''<edit 5><add>a</add></edit 5>'')\<rparr>,
          \<lparr>processedSentencePair.oldHeading = h3, newHeading = h4,
           processedSentencePair = Val (str ''<edit 2><del>b</del></edit 2>'')\<rparr>]) initialState))
     = [(2, 1), (5, 0)]
   \<and> map (\<lambda>r. (editIndex r, sectionIndex r))
       (fst (buildDiffRecords (Val
         [\<lparr>processedSentencePair.oldHeading = h3, newHeading = h4,
           processedSentencePair = Val (str ''<edit 2><del>b</del></edit 2>'')\<rparr>,
          \<lparr>processedSentencePair.oldHeading = h1, newHeading = h2,
           processedSentencePair = Val (str ''<edit 5><add>a</add></edit 5>'')\<rparr>]) initialState))
     = [(2, 0), (5, 1)]
   \<and> map (\<lambda>r. (editIndex r, sectionIndex r))
       (fst (buildDiffRecords (Val
         [\<lparr>processedSentencePair.oldHeading = h1, newHeading = h2,
           processedSentencePair = Val (str ''<edit 7>a</edit 7><edit 3>b</edit 3>'')\<rparr>,
          \<lparr>processedSentencePair.oldHeading = h3, newHeading = h4,
           processedSentencePair = Val (str ''<edit 3>c</edit 3>'')\<rparr>]) initialState))
     = [(3, 0), (3, 1), (7, 0)]"
proof -
  let ?all = "concat (map (\<lambda>(pairIndex, pair).
          fst (scanPair pair pairIndex (textOf (processedSentencePair pair)) initialState []))
        (List.enumerate 0 pairs))"
  have eq: "fst (buildDiffRecords (Val pairs) initialState) = sort_key editIndex ?all"
    by (cases pairs) (simp_all add: forEachPair_eq)
  have s: "sorted (map editIndex (fst (buildDiffRecords (Val pairs) initialState)))"
    unfolding eq by simp
  have p: "mset (fst (buildDiffRecords (Val pairs) initialState)) = mset ?all"
    unfolding eq by simp
  have st: "\<forall>k. filter (\<lambda>r. editIndex r = k) (fst (buildDiffRecords (Val pairs) initialState))
     = filter (\<lambda>r. editIndex r = k) ?all"
    unfolding eq by (simp add: sort_key_stable)
  have e1: "map (\<lambda>r. (editIndex r, sectionIndex r))
       (fst (buildDiffRecords (Val
         [\<lparr>processedSentencePair.oldHeading = h1, newHeading = h2,
           processedSentencePair = Val (str ''<edit 5><add>a</add></edit 5>'')\<rparr>,
          \<lparr>processedSentencePair.oldHeading = h3, newHeading = h4,
           processedSentencePair = Val (str ''<edit 2><del>b</del></edit 2>'')\<rparr>]) initialState))
     = [(2, 1), (5, 0)]"
    by (simp add: eval_defs)
  have e2: "map (\<lambda>r. (editIndex r, sectionIndex r))
       (fst (buildDiffRecords (Val
         [\<lparr>processedSentencePair.oldHeading = h3, newHeading = h4,
           processedSentencePair = Val (str ''<edit 2><del>b</del></edit 2>'')\<rparr>,
          \<lparr>processedSentencePair.oldHeading = h1, newHeading = h2,
           processedSentencePair = Val (str ''<edit 5><add>a</add></edit 5>'')\<rparr>]) initialState))
     = [(2, 0), (5, 1)]"
    by (simp add: eval_defs)
  have e3: "map (\<lambda>r. (editIndex r, sectionIndex r))
       (fst (buildDiffRecords (Val
         [\<lparr>processedSentencePair.oldHeading = h1, newHeading = h2,
           processedSentencePair = Val (str ''<edit 7>a</edit 7><edit 3>b</edit 3>'')\<rparr>,
          \<lparr>processedSentencePair.oldHeading = h3, newHeading = h4,
           processedSentencePair = Val (str ''<edit 3>c</edit 3>'')\<rparr>]) initialState))
     = [(3, 0), (3, 1), (7, 0)]"
    by (simp add: eval_defs)
  from s p st e1 e2 e3 show ?thesis by blast
qed

section \<open>Re-running the extractors\<close>

lemma parseStage1_initial: "snd (parseStage1 raw initialState) = initialState"
  by (cases raw) (simp_all add: parseStage1_loop_eq)

lemma parseStage2_initial: "snd (parseStage2 raw initialState) = initialState"
  by (cases raw) (simp_all add: parseStage2_loop_eq)

lemma toDiffSegments_initial: "snd (toDiffSegments raw initialState) = initialState"
  by (simp add: toDiffSegments_snd)

lemma buildDiffRecords_initial: "snd (buildDiffRecords pairs initialState) = initialState"
  by (cases pairs) (simp_all add: forEachPair_eq)

text \<open>
  The state is not idle: were \<open>addDelRegex.lastIndex\<close> left at 1, the search would
  start behind the \<open><\<close> and \<open>toDiffSegments\<close> would miss the span.
\<close>

lemma toDiffSegments_lastIndex:
  "toDiffSegments (str ''<add>X</add>'') (initialState\<lparr>addDelLast := 1\<rparr>)
     = ([\<lparr>type = Text, content = str ''<add>X</add>''\<rparr>], initialState)
   \<and> toDiffSegments (str ''<add>X</add>'') initialState
     = ([\<lparr>type = Add, content = str ''X''\<rparr>], initialState)"
  by (simp add: eval_defs initialState_def)

text \<open>
  Claim C8. The module starts with every \<open>lastIndex\<close> at 0. Every extractor called
  in that state returns with every \<open>lastIndex\<close> at 0 again (its loop ends on the
  \<open>exec\<close> that fails, which resets \<open>lastIndex\<close>), so the state is the initial one
  before every call, and a second run on the same input returns what the first
  returned.
\<close>

theorem extractors_rerun:
  "snd (parseStage1 raw initialState) = initialState
   \<and> fst (parseStage1 raw (snd (parseStage1 raw initialState))) = fst (parseStage1 raw initialState)
   \<and> snd (parseStage2 raw initialState) = initialState
   \<and> fst (parseStage2 raw (snd (parseStage2 raw initialState))) = fst (parseStage2 raw initialState)
   \<and> snd (toDiffSegments body initialState) = initialState
   \<and> fst (toDiffSegments body (snd (toDiffSegments body initialState)))
     = fst (toDiffSegments body initialState)
   \<and> snd (buildDiffRecords pairs initialState) = initialState
   \<and> fst (buildDiffRecords pairs (snd (buildDiffRecords pairs initialState)))
     = fst (buildDiffRecords pairs initialState)"
  by (simp add: parseStage1_initial parseStage2_initial toDiffSegments_initial
      buildDiffRecords_initial)

section \<open>Facts about the matches of a loop\<close>

lemma execAll_member:
  assumes "productive re" and "m \<in> set (execAll re raw li)"
  shows "li \<le> matchIndex m \<and> matchIndex m + length (full m) \<le> length raw
         \<and> full m \<noteq> []
         \<and> drop (matchIndex m) raw = full m @ drop (matchIndex m + length (full m)) raw
         \<and> re (drop (matchIndex m) raw)
             = Some (group1 m, group2 m, drop (matchIndex m + length (full m)) raw)"
  using assms
proof (induction re raw li rule: execAll.induct)
  case (1 re raw li)
  obtain mo li' where e: "exec re raw li = (mo, li')" by (cases "exec re raw li")
  show ?case
  proof (cases mo)
    case None
    with e "1.prems" show ?thesis by (simp add: execAll_None)
  next
    case (Some m')
    note es = e[unfolded Some]
    have f: "li \<le> matchIndex m'" "matchIndex m' < li'" "li' \<le> length raw"
         "li' = matchIndex m' + length (full m')"
         "re (drop (matchIndex m') raw) = Some (group1 m', group2 m', drop li' raw)"
         "drop (matchIndex m') raw = full m' @ drop li' raw"
      using exec_Some[OF "1.prems"(1) es] by blast+
    from f(2,4) have ne: "full m' \<noteq> []" by auto
    from "1.prems"(2) execAll_Some[OF "1.prems"(1) es]
    consider "m = m'" | "m \<in> set (execAll re raw li')" by auto
    then show ?thesis
    proof cases
      case 1
      with f ne show ?thesis by (simp del: append_eq_conv_conj)
    next
      case 2
      from f(1,2) have "li < li'" by linarith
      note ih = "1.IH"[OF e[symmetric] Some this "1.prems"(1) 2]
      then have "li' \<le> matchIndex m" by blast
      with f(1,2) have "li \<le> matchIndex m" by linarith
      with ih show ?thesis by blast
    qed
  qed
qed

lemma execAll_ordered:
  assumes "productive re"
  shows "sorted_wrt (\<lambda>a b. matchIndex a + length (full a) \<le> matchIndex b) (execAll re raw li)"
  using assms
proof (induction re raw li rule: execAll.induct)
  case (1 re raw li)
  obtain mo li' where e: "exec re raw li = (mo, li')" by (cases "exec re raw li")
  show ?case
  proof (cases mo)
    case None
    with e show ?thesis by (simp add: execAll_None)
  next
    case (Some m')
    note es = e[unfolded Some]
    have f: "li \<le> matchIndex m'" "matchIndex m' < li'" "li' = matchIndex m' + length (full m')"
      using exec_Some[OF "1.prems" es] by blast+
    from f(1,2) have lt: "li < li'" by linarith
    have "\<forall>b \<in> set (execAll re raw li'). li' \<le> matchIndex b"
      using execAll_member[OF "1.prems"] by blast
    with "1.IH"[OF e[symmetric] Some lt "1.prems"] f(3) show ?thesis
      by (simp add: execAll_Some[OF "1.prems" es])
  qed
qed

lemma addDelRegex_shape:
  assumes "addDelRegex s = Some (g1, g2, rest)"
  shows "(g1 = str ''add'' \<or> g1 = str ''del'')
         \<and> s = str ''<'' @ g1 @ str ''>'' @ g2 @ str ''</'' @ g1 @ str ''>'' @ rest"
proof -
  from addDelRegex_Some[OF assms] obtain s3 where
    t: "g1 = str ''add'' \<or> g1 = str ''del''"
    and s: "s = str ''<'' @ g1 @ str ''>'' @ s3"
    and l: "lazyBody (lit (str ''</'' @ g1 @ str ''>'')) s3 = Some (g2, rest)"
    by blast
  from lazyBody_append[OF l] obtain u where "s3 = g2 @ u" "lit (str ''</'' @ g1 @ str ''>'') u = Some rest"
    by blast
  then have "s3 = g2 @ (str ''</'' @ g1 @ str ''>'') @ rest" by (simp add: lit_iff)
  with t s show ?thesis by simp
qed

lemma addDel_member:
  assumes "m \<in> set (execAll addDelRegex raw li)"
  shows "(group1 m = str ''add'' \<or> group1 m = str ''del'')
         \<and> full m = str ''<'' @ group1 m @ str ''>'' @ group2 m @ str ''</'' @ group1 m @ str ''>''
         \<and> slice raw (matchIndex m) (matchIndex m + length (full m)) = full m"
proof -
  let ?e = "matchIndex m + length (full m)"
  have d: "drop (matchIndex m) raw = full m @ drop ?e raw"
    and r: "addDelRegex (drop (matchIndex m) raw) = Some (group1 m, group2 m, drop ?e raw)"
    using execAll_member[OF addDelRegex_productive assms] by blast+
  have t: "group1 m = str ''add'' \<or> group1 m = str ''del''"
    using addDelRegex_shape[OF r] by blast
  have "drop (matchIndex m) raw
            = str ''<'' @ group1 m @ str ''>'' @ group2 m @ str ''</'' @ group1 m @ str ''>''
              @ drop ?e raw"
    using addDelRegex_shape[OF r] by blast
  then have s: "drop (matchIndex m) raw
            = (str ''<'' @ group1 m @ str ''>'' @ group2 m @ str ''</'' @ group1 m @ str ''>'')
              @ drop ?e raw"
    by simp
  from d s have f: "full m = str ''<'' @ group1 m @ str ''>'' @ group2 m @ str ''</'' @ group1 m @ str ''>''"
    by (metis append_same_eq)
  have "slice raw (matchIndex m) ?e = take (length (full m)) (drop (matchIndex m) raw)"
    by (simp add: slice_def)
  also have "\<dots> = full m" by (subst d) simp
  finally show ?thesis using t f by simp
qed

lemma spec_segments_text:
  "seg \<in> set (spec_segments raw k ms) \<Longrightarrow> type seg = Text \<Longrightarrow> length (trim (content seg)) > 0"
  by (induction ms arbitrary: k) (auto simp: spec_gap_def segmentOf_def split: if_splits)

section \<open>Properties of the Segment Tokenizer\<close>

text \<open>
  Claim C5. The segments of a text are its \<open>add\<close>/\<open>del\<close> matches in scan order,
  each with the captured text as it stands between the tags, and the gaps before,
  between and behind the matches, a gap giving a text segment only when it is not
  blank after trimming: every match is a tag pair around its capture found in the text
  at its index, the matches do not overlap, and no text segment is blank.
  \<open>pre<add>X</add>mid<del>Y</del>post\<close> gives text \<open>pre\<close>, add \<open>X\<close>, text \<open>mid\<close>,
  del \<open>Y\<close>, text \<open>post\<close>; a gap of three spaces gives no segment; the capture
  \<open>" X "\<close> keeps its spaces.
\<close>

theorem toDiffSegments_segments:
  "fst (toDiffSegments raw initialState) = spec_segments raw 0 (execAll addDelRegex raw 0)
   \<and> (\<forall>m \<in> set (execAll addDelRegex raw 0).
        (group1 m = str ''add'' \<or> group1 m = str ''del'')
        \<and> full m = str ''<'' @ group1 m @ str ''>'' @ group2 m @ str ''</'' @ group1 m @ str ''>''
        \<and> slice raw (matchIndex m) (matchIndex m + length (full m)) = full m)
   \<and> sorted_wrt (\<lambda>a b. matchIndex a + length (full a) \<le> matchIndex b) (execAll addDelRegex raw 0)
   \<and> (\<forall>seg \<in> set (fst (toDiffSegments raw initialState)).
        type seg = Text \<longrightarrow> length (trim (content seg)) > 0)
   \<and> fst (toDiffSegments (str ''pre<add>X</add>mid<del>Y</del>post'') initialState)
     = [\<lparr>type = Text, content = str ''pre''\<rparr>, \<lparr>type = Add, content = str ''X''\<rparr>,
        \<lparr>type = Text, content = str ''mid''\<rparr>, \<lparr>type = Del, content = str ''Y''\<rparr>,
        \<lparr>type = Text, content = str ''post''\<rparr>]
   \<and> fst (toDiffSegments (str ''<add>X</add>   <del>Y</del>'') initialState)
     = [\<lparr>type = Add, content = str ''X''\<rparr>, \<lparr>type = Del, content = str ''Y''\<rparr>]
   \<and> fst (toDiffSegments (str ''<add> X </add>'') initialState)
     = [\<lparr>type = Add, content = str '' X ''\<rparr>]"
proof -
  have a: "fst (toDiffSegments raw initialState)
           = spec_segments raw 0 (execAll addDelRegex raw 0)"
    by (simp add: toDiffSegments_eq)
  have b: "\<forall>m \<in> set (execAll addDelRegex raw 0).
        (group1 m = str ''add'' \<or> group1 m = str ''del'')
        \<and> full m = str ''<'' @ group1 m @ str ''>'' @ group2 m @ str ''</'' @ group1 m @ str ''>''
        \<and> slice raw (matchIndex m) (matchIndex m + length (full m)) = full m"
    using addDel_member by blast
  have c: "sorted_wrt (\<lambda>a b. matchIndex a + length (full a) \<le> matchIndex b)
             (execAll addDelRegex raw 0)"
    by (rule execAll_ordered[OF addDelRegex_productive])
  have d: "\<forall>seg \<in> set (fst (toDiffSegments raw initialState)).
        type seg = Text \<longrightarrow> length (trim (content seg)) > 0"
    unfolding a using spec_segments_text by blast
  have e1: "fst (toDiffSegments (str ''pre<add>X</add>mid<del>Y</del>post'') initialState)
     = [\<lparr>type = Text, content = str ''pre''\<rparr>, \<lparr>type = Add, content = str ''X''\<rparr>,
        \<lparr>type = Text, content = str ''mid''\<rparr>, \<lparr>type = Del, content = str ''Y''\<rparr>,
        \<lparr>type = Text, content = str ''post''\<rparr>]"
    by (simp add: eval_defs)
  have e2: "fst (toDiffSegments (str ''<add>X</add>   <del>Y</del>'') initialState)
     = [\<lparr>type = Add, content = str ''X''\<rparr>, \<lparr>type = Del, content = str ''Y''\<rparr>]"
    by (simp add: eval_defs)
  have e3: "fst (toDiffSegments (str ''<add> X </add>'') initialState)
     = [\<lparr>type = Add, content = str '' X ''\<rparr>]"
    by (simp add: eval_defs)
  from a b c d e1 e2 e3 show ?thesis by blast
qed

text \<open>
  The theorem at the text \<open>a <add> X </add>\<close>: one match, at index 2, and a text
  segment that is not blank.
\<close>

theorem toDiffSegments_segments_witness:
  "execAll addDelRegex (str ''a <add> X </add>'') 0
     = [\<lparr>matchIndex = 2, full = str ''<add> X </add>'', group1 = str ''add'',
         group2 = str '' X ''\<rparr>]
   \<and> slice (str ''a <add> X </add>'') 2 16 = str ''<add> X </add>''
   \<and> fst (toDiffSegments (str ''a <add> X </add>'') initialState)
     = [\<lparr>type = Text, content = str ''a ''\<rparr>, \<lparr>type = Add, content = str '' X ''\<rparr>]
   \<and> length (trim (str ''a '')) > 0"
proof -
  have m: "execAll addDelRegex (str ''a <add> X </add>'') 0
     = [\<lparr>matchIndex = 2, full = str ''<add> X </add>'', group1 = str ''add'',
         group2 = str '' X ''\<rparr>]"
    by (simp add: eval_defs)
  have s: "fst (toDiffSegments (str ''a <add> X </add>'') initialState)
     = [\<lparr>type = Text, content = str ''a ''\<rparr>, \<lparr>type = Add, content = str '' X ''\<rparr>]"
    by (simp add: eval_defs)
  note t = toDiffSegments_segments[of "str ''a <add> X </add>''"]
  from t have "\<forall>m \<in> set (execAll addDelRegex (str ''a <add> X </add>'') 0).
      slice (str ''a <add> X </add>'') (matchIndex m) (matchIndex m + length (full m)) = full m"
    by blast
  then have sl: "slice (str ''a <add> X </add>'') 2 16 = str ''<add> X </add>''"
    unfolding m by (simp add: str_def)
  from t have "\<forall>seg \<in> set (fst (toDiffSegments (str ''a <add> X </add>'') initialState)).
        type seg = Text \<longrightarrow> length (trim (content seg)) > 0"
    by blast
  then have "length (trim (str ''a '')) > 0"
    unfolding s by simp
  with m s sl show ?thesis by blast
qed

section \<open>Properties of the block matches\<close>

lemma lazyBody_first:
  "lazyBody close s = Some (b, r) \<Longrightarrow> j < length b \<Longrightarrow> close (drop j s) = None"
proof (induction close s arbitrary: b j rule: lazyBody.induct)
  case (1 close)
  then show ?case by (auto split: option.splits)
next
  case (2 close c cs)
  show ?case
  proof (cases "close (c # cs)")
    case (Some r')
    with "2.prems" show ?thesis by simp
  next
    case None
    with "2.prems" obtain b' where l: "lazyBody close cs = Some (b', r)" and b: "b = c # b'"
      by (auto split: option.splits)
    show ?thesis
    proof (cases j)
      case 0
      with None show ?thesis by simp
    next
      case (Suc j')
      with "2.prems"(2) b have "j' < length b'" by simp
      from "2.IH"[OF None l this] Suc show ?thesis by simp
    qed
  qed
qed

lemma blockRegex_shape:
  assumes "blockRegex kind s = Some (g1, g2, rest)"
  shows "\<exists>otag ctag. s = otag @ g2 @ ctag @ rest
           \<and> closeBlock kind g1 (ctag @ rest) = Some rest
           \<and> (\<forall>j<length g2. closeBlock kind g1 (drop j g2 @ ctag @ rest) = None)"
proof -
  from assms obtain s1 s2 s4 s5 where
    a: "lit (str ''<'' @ kind) s = Some s1" and b: "spaces1 s1 = Some s2"
    and d: "spaces1 (dropWhile isDigit s2) = Some s4"
    and e: "lit (str ''Desc>'') s4 = Some s5"
    and g: "g1 = takeWhile isDigit s2"
    and f: "lazyBody (closeBlock kind g1) (dropWhile isSpace s5) = Some (g2, rest)"
    unfolding blockRegex_def by (auto split: Option.bind_splits if_splits)
  have "suffix (dropWhile isSpace s5) s5" "suffix (dropWhile isDigit s2) s2"
    by (rule suffix_dropWhile)+
  moreover have "suffix s5 s4" "suffix s4 (dropWhile isDigit s2)" "suffix s2 s1" "suffix s1 s"
    using a b d e by (simp_all add: lit_suffix spaces1_suffix)
  ultimately have "suffix (dropWhile isSpace s5) s" by (meson suffix_order.trans)
  then obtain otag where s: "s = otag @ dropWhile isSpace s5" by (auto simp: suffix_def)
  from lazyBody_append[OF f] obtain t where
    t: "dropWhile isSpace s5 = g2 @ t" "closeBlock kind g1 t = Some rest"
    by blast
  from closeBlock_suffix[OF t(2)] obtain ctag where c: "t = ctag @ rest"
    by (auto simp: suffix_def)
  have "\<forall>j<length g2. closeBlock kind g1 (drop j g2 @ ctag @ rest) = None"
  proof (intro allI impI)
    fix j assume j: "j < length g2"
    from lazyBody_first[OF f j] show "closeBlock kind g1 (drop j g2 @ ctag @ rest) = None"
      using t(1) c j by simp
  qed
  with s t c show ?thesis by auto
qed

lemma editBlock_member:
  assumes "m \<in> set (execAll editBlockRegex raw li)"
  shows "slice raw (matchIndex m) (matchIndex m + length (full m)) = full m
         \<and> (\<exists>otag ctag. full m = otag @ group2 m @ ctag
              \<and> closeBlock (str ''edit'') (group1 m)
                   (ctag @ drop (matchIndex m + length (full m)) raw)
                 = Some (drop (matchIndex m + length (full m)) raw)
              \<and> (\<forall>j<length (group2 m).
                    closeBlock (str ''edit'') (group1 m)
                      (drop j (group2 m) @ ctag @ drop (matchIndex m + length (full m)) raw)
                    = None))"
proof -
  let ?e = "matchIndex m + length (full m)"
  have d: "drop (matchIndex m) raw = full m @ drop ?e raw"
    and r: "editBlockRegex (drop (matchIndex m) raw) = Some (group1 m, group2 m, drop ?e raw)"
    using execAll_member[OF editBlockRegex_productive assms] by blast+
  from r have "blockRegex (str ''edit'') (drop (matchIndex m) raw)
      = Some (group1 m, group2 m, drop ?e raw)"
    by (simp add: editBlockRegex_def)
  from blockRegex_shape[OF this] obtain otag ctag where
    oc: "drop (matchIndex m) raw = otag @ group2 m @ ctag @ drop ?e raw"
      "closeBlock (str ''edit'') (group1 m) (ctag @ drop ?e raw) = Some (drop ?e raw)"
      "\<forall>j<length (group2 m). closeBlock (str ''edit'') (group1 m)
          (drop j (group2 m) @ ctag @ drop ?e raw) = None"
    by blast
  from d oc(1) have "full m @ drop ?e raw = (otag @ group2 m @ ctag) @ drop ?e raw"
    by simp
  then have fm: "full m = otag @ group2 m @ ctag" by (simp only: append_same_eq)
  have "slice raw (matchIndex m) ?e = take (length (full m)) (drop (matchIndex m) raw)"
    by (simp add: slice_def)
  also have "\<dots> = full m" by (subst d) simp
  finally have "slice raw (matchIndex m) ?e = full m" .
  with fm oc(2,3) show ?thesis by blast
qed

text \<open>
  Claim C6, as the code has it. The items of \<open>parseStage1\<close> come from the matches
  of its loop, one each, in order. The matches do not overlap: each starts at or
  behind the end of the one before. The body of a match ends at the first closing
  tag of the match's own index: the closing tag of the match stands right behind the
  body, and no closing tag of that index starts inside the body. (An opening tag, or
  a whole block of another index, may stand inside the body.)
\<close>

theorem block_matches_disjoint:
  "fst (parseStage1 (Val raw) initialState) = map stage1ItemOf (execAll editBlockRegex raw 0)
   \<and> sorted_wrt (\<lambda>a b. matchIndex a + length (full a) \<le> matchIndex b)
        (execAll editBlockRegex raw 0)
   \<and> (\<forall>m \<in> set (execAll editBlockRegex raw 0).
        slice raw (matchIndex m) (matchIndex m + length (full m)) = full m
        \<and> (\<exists>otag ctag. full m = otag @ group2 m @ ctag
              \<and> closeBlock (str ''edit'') (group1 m)
                   (ctag @ drop (matchIndex m + length (full m)) raw)
                 = Some (drop (matchIndex m + length (full m)) raw)
              \<and> (\<forall>j<length (group2 m).
                    closeBlock (str ''edit'') (group1 m)
                      (drop j (group2 m) @ ctag @ drop (matchIndex m + length (full m)) raw)
                    = None)))"
proof -
  have e: "execAll editBlockRegex [] 0 = []"
    by (simp add: execAll.simps regex_defs)
  have a: "fst (parseStage1 (Val raw) initialState)
           = map stage1ItemOf (execAll editBlockRegex raw 0)"
    using e by (simp add: parseStage1_loop_eq)
  have b: "sorted_wrt (\<lambda>a b. matchIndex a + length (full a) \<le> matchIndex b)
        (execAll editBlockRegex raw 0)"
    by (rule execAll_ordered[OF editBlockRegex_productive])
  from a b editBlock_member[of _ raw 0] show ?thesis by blast
qed

text \<open>
  The theorem at two blocks behind one another: two matches, the second starting
  where the first ends, each with the closing tag of its index behind its body.
\<close>

theorem block_matches_disjoint_witness:
  "execAll editBlockRegex (str ''<edit 1 Desc>ab</edit 1 Desc><edit 2 Desc>c</edit 2 Desc>'') 0
     = [\<lparr>matchIndex = 0, full = str ''<edit 1 Desc>ab</edit 1 Desc>'', group1 = str ''1'',
         group2 = str ''ab''\<rparr>,
        \<lparr>matchIndex = 29, full = str ''<edit 2 Desc>c</edit 2 Desc>'', group1 = str ''2'',
         group2 = str ''c''\<rparr>]
   \<and> slice (str ''<edit 1 Desc>ab</edit 1 Desc><edit 2 Desc>c</edit 2 Desc>'')
        (matchIndex \<lparr>matchIndex = 29, full = str ''<edit 2 Desc>c</edit 2 Desc>'',
           group1 = str ''2'', group2 = str ''c''\<rparr>)
        (matchIndex \<lparr>matchIndex = 29, full = str ''<edit 2 Desc>c</edit 2 Desc>'',
           group1 = str ''2'', group2 = str ''c''\<rparr>
         + length (full \<lparr>matchIndex = 29, full = str ''<edit 2 Desc>c</edit 2 Desc>'',
           group1 = str ''2'', group2 = str ''c''\<rparr>))
     = full \<lparr>matchIndex = 29, full = str ''<edit 2 Desc>c</edit 2 Desc>'',
           group1 = str ''2'', group2 = str ''c''\<rparr>
   \<and> length (str ''<edit 1 Desc>ab</edit 1 Desc>'') = 29"
proof -
  let ?raw = "str ''<edit 1 Desc>ab</edit 1 Desc><edit 2 Desc>c</edit 2 Desc>''"
  let ?m2 = "\<lparr>matchIndex = 29, full = str ''<edit 2 Desc>c</edit 2 Desc>'',
           group1 = str ''2'', group2 = str ''c''\<rparr>"
  have m: "execAll editBlockRegex ?raw 0
     = [\<lparr>matchIndex = 0, full = str ''<edit 1 Desc>ab</edit 1 Desc>'', group1 = str ''1'',
         group2 = str ''ab''\<rparr>, ?m2]"
    by (simp add: execAll.simps regex_defs)
  then have mem: "?m2 \<in> set (execAll editBlockRegex ?raw 0)" by simp
  note t = block_matches_disjoint[of ?raw]
  from t have "\<forall>m \<in> set (execAll editBlockRegex ?raw 0).
        slice ?raw (matchIndex m) (matchIndex m + length (full m)) = full m"
    by blast
  with mem have "slice ?raw (matchIndex ?m2) (matchIndex ?m2 + length (full ?m2)) = full ?m2"
    by blast
  moreover have "length (str ''<edit 1 Desc>ab</edit 1 Desc>'') = 29"
    by (simp add: str_def)
  ultimately show ?thesis using m by blast
qed

text \<open>
  Claim C6 as stated fails. Behind an opening tag of index 3 whose closing tag is of
  index 4, the body runs on to the next closing tag of index 3: it takes in the whole
  block of index 4 that follows and the opening tag of the block of index 3 behind it,
  and the loop sees one match where two blocks stand. A block inside a block is taken
  into the body in the same way.
\<close>

theorem block_matches_counterexample:
  "map (\<lambda>m. (parseInt (group1 m), group2 m))
       (execAll editBlockRegex
          (str ''<edit 3 Desc>x</edit 4 Desc><edit 4 Desc>y</edit 4 Desc><edit 3 Desc>z</edit 3 Desc>'') 0)
     = [(3, str ''x</edit 4 Desc><edit 4 Desc>y</edit 4 Desc><edit 3 Desc>z'')]
   \<and> includesStr (str ''x</edit 4 Desc><edit 4 Desc>y</edit 4 Desc><edit 3 Desc>z'')
        (str ''<edit 4 Desc>'')
   \<and> map (\<lambda>m. (parseInt (group1 m), group2 m))
       (execAll editBlockRegex (str ''<edit 4 Desc>y</edit 4 Desc><edit 3 Desc>z</edit 3 Desc>'') 0)
     = [(4, str ''y''), (3, str ''z'')]
   \<and> map (\<lambda>m. (parseInt (group1 m), group2 m))
       (execAll editBlockRegex
          (str ''<edit 3 Desc>x<edit 4 Desc>y</edit 4 Desc>z</edit 3 Desc>'') 0)
     = [(3, str ''x<edit 4 Desc>y</edit 4 Desc>z'')]
   \<and> includesStr (str ''x<edit 4 Desc>y</edit 4 Desc>z'') (str ''<edit 4 Desc>'')"
  by (simp add: execAll.simps regex_defs parseInt_def decimal_def toNumber_def enat_numeral)





section \<open>What the segments keep of the text\<close>

lemma spec_segments_emit:
  "spec_segments raw k ms = concat (map emit (pieces raw k ms))"
  by (induction ms arbitrary: k) (simp_all add: spec_gap_def spanOf_def segmentOf_def)

lemma pieces_render:
  "li \<le> length raw \<Longrightarrow>
   drop li raw = concat (map render (pieces raw li (execAll addDelRegex raw li)))"
proof (induction addDelRegex raw li rule: execAll.induct)
  case (1 raw li)
  obtain mo li' where e: "exec addDelRegex raw li = (mo, li')" by (cases "exec addDelRegex raw li")
  show ?case
  proof (cases mo)
    case None
    with e have "execAll addDelRegex raw li = []" by (simp add: execAll_None)
    then show ?thesis by simp
  next
    case (Some m)
    note es = e[unfolded Some]
    have f: "li \<le> matchIndex m" "matchIndex m < li'" "li' \<le> length raw"
         "li' = matchIndex m + length (full m)"
         "drop (matchIndex m) raw = full m @ drop li' raw"
      using exec_Some[OF addDelRegex_productive es] by blast+
    from f(1,2) have lt: "li < li'" by linarith
    note ih = "1.hyps"[OF e[symmetric] Some lt f(3)]
    have all: "execAll addDelRegex raw li = m # execAll addDelRegex raw li'"
      by (rule execAll_Some[OF addDelRegex_productive es])
    then have mem: "m \<in> set (execAll addDelRegex raw li)" by simp
    have t: "group1 m = str ''add'' \<or> group1 m = str ''del''"
      and fm: "full m = str ''<'' @ group1 m @ str ''>'' @ group2 m @ str ''</'' @ group1 m @ str ''>''"
      using addDel_member[OF mem] by blast+
    have rp: "render (spanOf m) = full m"
      using t fm by (auto simp: spanOf_def str_def)
    have "drop li raw = take (matchIndex m - li) (drop li raw) @ drop (matchIndex m - li) (drop li raw)"
      by (rule append_take_drop_id[symmetric])
    moreover have "drop (matchIndex m - li) (drop li raw) = drop (matchIndex m) raw"
      using f(1) by simp
    ultimately have dr: "drop li raw = slice raw li (matchIndex m) @ full m @ drop li' raw"
      using f(5) by (simp only: slice_def)
    show ?thesis
      unfolding all using dr rp ih f(4) by simp
  qed
qed

lemma content_emit: "concat (map content (emit p)) = kept p"
  by (cases p) simp_all

lemma contents_kept:
  "concat (map content (concat (map emit ps))) = concat (map kept ps)"
  by (induction ps) (simp_all add: content_emit)

lemma kept_le_render: "length (kept p) \<le> length (render p)"
  by (cases p) simp_all

lemma kept_le_render_all:
  "length (concat (map kept ps)) \<le> length (concat (map render ps))"
  by (induction ps) (simp_all add: add_mono kept_le_render)

lemma kept_less_render_span: "length (kept (spanOf m)) < length (render (spanOf m))"
  by (simp add: spanOf_def str_def)

lemma pieces_kept_shorter:
  "ms \<noteq> [] \<Longrightarrow>
   length (concat (map kept (pieces raw k ms))) < length (concat (map render (pieces raw k ms)))"
proof (cases ms)
  case Nil
  assume "ms \<noteq> []"
  with Nil show ?thesis by simp
next
  case (Cons m ms')
  have a: "length (kept (Gap (slice raw k (matchIndex m))))
      \<le> length (render (Gap (slice raw k (matchIndex m))))"
    by (rule kept_le_render)
  have b: "length (concat (map kept (pieces raw (matchIndex m + length (full m)) ms')))
      \<le> length (concat (map render (pieces raw (matchIndex m + length (full m)) ms')))"
    by (rule kept_le_render_all)
  from a b kept_less_render_span[of m] show ?thesis
    unfolding Cons by (simp del: kept.simps render.simps)
qed

lemma toDiffSegments_pieces:
  "body = concat (map render (pieces body 0 (execAll addDelRegex body 0)))"
  "fst (toDiffSegments body initialState)
     = concat (map emit (pieces body 0 (execAll addDelRegex body 0)))"
  "concat (map content (fst (toDiffSegments body initialState)))
     = concat (map kept (pieces body 0 (execAll addDelRegex body 0)))"
proof -
  show a: "body = concat (map render (pieces body 0 (execAll addDelRegex body 0)))"
    using pieces_render[of 0 body] by simp
  show b: "fst (toDiffSegments body initialState)
     = concat (map emit (pieces body 0 (execAll addDelRegex body 0)))"
    by (simp add: toDiffSegments_eq spec_segments_emit)
  show "concat (map content (fst (toDiffSegments body initialState)))
     = concat (map kept (pieces body 0 (execAll addDelRegex body 0)))"
    unfolding b by (rule contents_kept)
qed

lemma contents_exact_iff:
  "concat (map content (fst (toDiffSegments body initialState))) = body
   \<longleftrightarrow> execAll addDelRegex body 0 = [] \<and> (body = [] \<or> length (trim body) > 0)"
proof (cases "execAll addDelRegex body 0 = []")
  case True
  then have "concat (map content (fst (toDiffSegments body initialState)))
      = (if length (trim body) > 0 then body else [])"
    by (simp add: toDiffSegments_pieces(3))
  with True show ?thesis by auto
next
  case False
  from pieces_kept_shorter[OF False, of body 0]
  have "length (concat (map content (fst (toDiffSegments body initialState)))) < length body"
    using toDiffSegments_pieces(1)[of body] toDiffSegments_pieces(3)[of body] by simp
  with False show ?thesis by auto
qed

lemma buildDiffRecords_records:
  "fst (buildDiffRecords (Val pairs) initialState)
     = sort_key editIndex (concat (map (\<lambda>(pairIndex, pair).
         map (recordOf pair pairIndex)
             (execAll editWrapperRegex (textOf (processedSentencePair pair)) 0))
       (List.enumerate 0 pairs)))"
  by (cases pairs) (simp_all add: forEachPair_eq scanPair_eq)

text \<open>
  Claim C1, as the code has it. Every record of \<open>buildDiffRecords\<close> is the record of
  a match of \<open>editWrapperRegex\<close> in the text of a section, and its segments are the
  tokenization of the body of that match. A body is, piece by piece, the gaps and the
  \<open>add\<close>/\<open>del\<close> spans that the matches of \<open>addDelRegex\<close> cut it into; the segments
  are these pieces in order, a span without its tags and a blank gap dropped. So the
  contents, concatenated, are the body without the tags of the matched spans and
  without the blank gaps; they are the body itself exactly when the body has no
  matched span and is empty or not blank.
\<close>

theorem segments_reconstruct_body:
  "body = concat (map render (pieces body 0 (execAll addDelRegex body 0)))
   \<and> fst (toDiffSegments body initialState)
     = concat (map emit (pieces body 0 (execAll addDelRegex body 0)))
   \<and> concat (map content (fst (toDiffSegments body initialState)))
     = concat (map kept (pieces body 0 (execAll addDelRegex body 0)))
   \<and> (concat (map content (fst (toDiffSegments body initialState))) = body
      \<longleftrightarrow> execAll addDelRegex body 0 = [] \<and> (body = [] \<or> length (trim body) > 0))
   \<and> fst (buildDiffRecords (Val pairs) initialState)
     = sort_key editIndex (concat (map (\<lambda>(pairIndex, pair).
         map (recordOf pair pairIndex)
             (execAll editWrapperRegex (textOf (processedSentencePair pair)) 0))
       (List.enumerate 0 pairs)))
   \<and> segments (recordOf pair pairIndex m) = fst (toDiffSegments (group2 m) initialState)"
  using toDiffSegments_pieces[of body] contents_exact_iff[of body]
    buildDiffRecords_records[of pairs]
  by (simp add: recordOf_def)

text \<open>
  The theorem at the body \<open>a b<add>X</add> <del>Y</del>\<close>: the pieces are the gap
  \<open>a b\<close>, the span of \<open>X\<close>, a blank gap, the span of \<open>Y\<close> and an empty gap; the
  segments are text \<open>a b\<close>, add \<open>X\<close>, del \<open>Y\<close>, and the contents give \<open>a bXY\<close>.
\<close>

theorem segments_reconstruct_body_witness:
  "pieces (str ''a b<add>X</add> <del>Y</del>'') 0
       (execAll addDelRegex (str ''a b<add>X</add> <del>Y</del>'') 0)
     = [Gap (str ''a b''), AddSpan (str ''X''), Gap (str '' ''), DelSpan (str ''Y''), Gap []]
   \<and> fst (toDiffSegments (str ''a b<add>X</add> <del>Y</del>'') initialState)
     = [\<lparr>type = Text, content = str ''a b''\<rparr>, \<lparr>type = Add, content = str ''X''\<rparr>,
        \<lparr>type = Del, content = str ''Y''\<rparr>]
   \<and> concat (map content (fst (toDiffSegments (str ''a b<add>X</add> <del>Y</del>'') initialState)))
     = str ''a bXY''"
proof -
  let ?b = "str ''a b<add>X</add> <del>Y</del>''"
  have p: "pieces ?b 0 (execAll addDelRegex ?b 0)
     = [Gap (str ''a b''), AddSpan (str ''X''), Gap (str '' ''), DelSpan (str ''Y''), Gap []]"
    by (simp add: execAll.simps regex_defs slice_def spanOf_def)
  note t = segments_reconstruct_body[of ?b]
  from t have "fst (toDiffSegments ?b initialState)
     = concat (map emit (pieces ?b 0 (execAll addDelRegex ?b 0)))" by blast
  then have s: "fst (toDiffSegments ?b initialState)
     = [\<lparr>type = Text, content = str ''a b''\<rparr>, \<lparr>type = Add, content = str ''X''\<rparr>,
        \<lparr>type = Del, content = str ''Y''\<rparr>]"
    unfolding p by (simp add: trim_def str_def isSpace_def)
  from t have "concat (map content (fst (toDiffSegments ?b initialState)))
     = concat (map kept (pieces ?b 0 (execAll addDelRegex ?b 0)))" by blast
  then have "concat (map content (fst (toDiffSegments ?b initialState))) = str ''a bXY''"
    unfolding p by (simp add: trim_def str_def isSpace_def)
  with p s show ?thesis by blast
qed

text \<open>
  Claim C1 as stated fails: the record of \<open><edit 1><add>X</add></edit 1>\<close> is
  tokenized from the body \<open><add>X</add>\<close>, and its one segment has the content
  \<open>X\<close>.
\<close>

theorem segments_reconstruct_counterexample:
  "fst (buildDiffRecords (Val
      [\<lparr>processedSentencePair.oldHeading = Null, newHeading = Null,
        processedSentencePair = Val (str ''<edit 1><add>X</add></edit 1>'')\<rparr>]) initialState)
     = [\<lparr>editIndex = 1, sectionIndex = 0, oldHeading = Null, newHeading = Null,
         segments = [\<lparr>type = Add, content = str ''X''\<rparr>]\<rparr>]
   \<and> map group2 (execAll editWrapperRegex (str ''<edit 1><add>X</add></edit 1>'') 0)
     = [str ''<add>X</add>'']
   \<and> concat (map content [\<lparr>type = Add, content = str ''X''\<rparr>]) \<noteq> str ''<add>X</add>''"
  by (simp add: eval_defs)

section \<open>Empty, absent and ill-typed input\<close>









section \<open>Which regions give a match\<close>













section \<open>Properties of the Block Extractor\<close>




end
